theory Spec2Isabelle
  imports Main "HOL-Library.Char_ord" "HOL-Library.List_Lexorder"
begin

section \<open>Strings\<close>

text \<open>
  A JavaScript string is modelled as a \<open>string\<close> (a list of \<open>char\<close>): one \<open>char\<close> per
  code unit, restricted to the code units below 256. \<open>length\<close> is \<open>.length\<close>,
  \<open>take n\<close> is \<open>.slice(0, n)\<close> and \<open>drop n\<close> is \<open>.slice(n)\<close> for \<open>0 \<le> n\<close>; the
  empty string is the only falsy string.
\<close>

abbreviation NL :: char where "NL \<equiv> CHR 0x0A"
abbreviation CR :: char where "CR \<equiv> CHR 0x0D"
abbreviation SP :: char where "SP \<equiv> CHR 0x20"

text \<open>
  The characters removed by \<open>trim\<close>, \<open>trimStart\<close> and \<open>trimEnd\<close>: the white space and
  line terminators of ECMAScript that are below 256 (TAB, LF, VT, FF, CR, SP, NBSP).
\<close>

definition is_ws :: "char \<Rightarrow> bool" where
  "is_ws c \<longleftrightarrow> c \<in> {CHR 0x09, CHR 0x0A, CHR 0x0B, CHR 0x0C, CHR 0x0D, CHR 0x20, CHR 0xA0}"

definition trimStart :: "string \<Rightarrow> string" where
  "trimStart s = dropWhile is_ws s"

definition trimEnd :: "string \<Rightarrow> string" where
  "trimEnd s = rev (dropWhile is_ws (rev s))"

definition trim :: "string \<Rightarrow> string" where
  "trim s = trimEnd (trimStart s)"

text \<open>\<open>s.startsWith(p)\<close>.\<close>

definition startsWith :: "string \<Rightarrow> string \<Rightarrow> bool" where
  "startsWith s p \<longleftrightarrow> take (length p) s = p"

text \<open>\<open>buf.indexOf('\n\n')\<close>: the first index of two consecutive newlines, \<open>None\<close> for -1.\<close>

fun index_blank :: "string \<Rightarrow> nat option" where
  "index_blank (a # b # cs) =
     (if a = NL \<and> b = NL then Some 0 else map_option Suc (index_blank (b # cs)))"
| "index_blank _ = None"

text \<open>
  \<open>s.lastIndexOf(pat, pos)\<close>: the largest index \<open>k \<le> pos\<close> at which \<open>pat\<close> occurs in
  \<open>s\<close> (the occurrence lies inside \<open>s\<close>), or -1.
\<close>

definition lastIndexOf :: "string \<Rightarrow> string \<Rightarrow> nat \<Rightarrow> int" where
  "lastIndexOf s pat pos =
     (if length s < length pat then - 1
      else case filter (\<lambda>k. take (length pat) (drop k s) = pat)
                  (rev [0 ..< Suc (min pos (length s - length pat))]) of
             [] \<Rightarrow> - 1
           | k # _ \<Rightarrow> int k)"

section \<open>Response chunker\<close>

subsection \<open>The chunker exported by src/llm/ollama.js\<close>

text \<open>
  The \<open>while\<close> loop of \<open>chunkDiscordMessage\<close>: it cuts \<open>maxLen\<close> characters off
  \<open>remaining\<close> as long as more than \<open>maxLen\<close> are left. With \<open>maxLen = 0\<close> and a
  non-empty text the loop never ends, which is the value \<open>None\<close>.
\<close>

partial_function (option) chunk_loop :: "nat \<Rightarrow> string \<Rightarrow> string list \<Rightarrow> string list option" where
  "chunk_loop maxLen remaining chunks =
     (if length remaining > maxLen
      then chunk_loop maxLen (drop maxLen remaining) (chunks @ [take maxLen remaining])
      else Some (if remaining \<noteq> [] then chunks @ [remaining] else chunks))"

declare chunk_loop.simps [code]

definition chunkDiscordMessage :: "string \<Rightarrow> nat \<Rightarrow> string list option" where
  "chunkDiscordMessage text maxLen = chunk_loop maxLen text []"

subsection \<open>The chunker of src/unnamed/part_001\<close>

text \<open>
  \<open>Math.floor(maxLen * 0.6)\<close>. The product is computed in binary64; for the default
  \<open>maxLen = 1900\<close> it is exactly 1140, which is also \<open>1900 * 3 div 5\<close>.
\<close>

definition min_fill :: "nat \<Rightarrow> nat" where
  "min_fill maxLen = maxLen * 3 div 5"

text \<open>The cut position chosen by one iteration of \<open>pushSmart\<close>.\<close>

definition smart_cut :: "nat \<Rightarrow> string \<Rightarrow> nat" where
  "smart_cut maxLen segment =
     (let cut = (if lastIndexOf segment [NL, NL] maxLen \<ge> 0
                 then lastIndexOf segment [NL, NL] maxLen
                 else if lastIndexOf segment [NL] maxLen \<ge> 0
                 then lastIndexOf segment [NL] maxLen
                 else lastIndexOf segment [SP] maxLen)
      in if cut < int (min_fill maxLen) then maxLen else nat cut)"

text \<open>
  The helper \<open>pushSmart\<close>, with the array \<open>chunks\<close> it appends to passed through. The loop
  can run forever (\<open>maxLen = 0\<close>), so it is a partial function.
\<close>

partial_function (option) pushSmart :: "nat \<Rightarrow> string \<Rightarrow> string list \<Rightarrow> string list option" where
  "pushSmart maxLen segment chunks =
     (if length segment > maxLen
      then pushSmart maxLen (trimStart (drop (smart_cut maxLen segment) segment))
             (chunks @ [trimEnd (take (smart_cut maxLen segment) segment)])
      else Some (if segment \<noteq> [] then chunks @ [segment] else chunks))"

declare pushSmart.simps [code]

text \<open>
  \<open>text.split(/\n{2,}/)\<close>: the pieces between maximal runs of two or more newlines.
\<close>

function split_paras :: "string \<Rightarrow> string list" where
  "split_paras s =
     (case index_blank s of
        None \<Rightarrow> [s]
      | Some i \<Rightarrow> take i s # split_paras (dropWhile (\<lambda>c. c = NL) (drop (i + 2) s)))"
  by pat_completeness auto
termination
proof (relation "measure length")
  show "wf (measure length)" by simp
next
  fix s :: string and i
  assume "index_blank s = Some i"
  then have "i + 2 \<le> length s"
    by (induction s arbitrary: i rule: index_blank.induct) (auto split: if_splits)
  moreover have "length (dropWhile (\<lambda>c. c = NL) (drop (i + 2) s)) \<le> length (drop (i + 2) s)"
    by (rule length_dropWhile_le)
  ultimately show "(dropWhile (\<lambda>c. c = NL) (drop (i + 2) s), s) \<in> measure length"
    by simp
qed

text \<open>The \<open>for\<close> loop over the paragraphs.\<close>

fun push_paras :: "nat \<Rightarrow> string list \<Rightarrow> string list \<Rightarrow> string list option" where
  "push_paras maxLen [] chunks = Some chunks"
| "push_paras maxLen (para # paras) chunks =
     (case pushSmart maxLen para chunks of
        None \<Rightarrow> None
      | Some chunks' \<Rightarrow> push_paras maxLen paras chunks')"

definition chunkDiscordMessage_smart :: "string \<Rightarrow> nat \<Rightarrow> string list option" where
  "chunkDiscordMessage_smart text maxLen =
     (if text = [] then Some [[]] else push_paras maxLen (split_paras text) [])"

subsection \<open>The callers in src/index.js\<close>

text \<open>
  Both callers post \<open>chunks[0] || '(empty response)'\<close> and then \<open>chunks[i]\<close> for
  \<open>i = 1, ..., chunks.length - 1\<close>. \<open>posted\<close> is the list of contents they post:
  a missing or empty first chunk is replaced by the placeholder.
\<close>

definition posted :: "string list \<Rightarrow> string list" where
  "posted chunks =
     (case chunks of
        [] \<Rightarrow> [''(empty response)'']
      | c # cs \<Rightarrow> (if c \<noteq> [] then c else ''(empty response)'') # cs)"

section \<open>Reminders store and scheduler (src/index.js)\<close>

text \<open>
  A row of the table \<open>reminders\<close>. The column \<open>id\<close> is \<open>rid\<close> and the column \<open>text\<close>
  is \<open>rtext\<close>; the INTEGER column \<open>delivered\<close> only ever holds 0 and 1 and is a
  \<open>bool\<close>; a NULL \<open>guild_id\<close> is \<open>None\<close>. The TEXT columns compare as SQLite compares
  them (byte by byte, a proper prefix first), which is the lexicographic order on
  \<open>string\<close>.
\<close>

record reminder =
  rid :: nat
  user_id :: string
  channel_id :: string
  guild_id :: "string option"
  rtext :: string
  run_at_iso :: string
  delivered :: bool
  created_at_iso :: string

text \<open>
  The table: its rows in insertion order, and the next value of the AUTOINCREMENT
  key (one more than the largest key ever used).
\<close>

record store =
  rows :: "reminder list"
  next_id :: nat

definition init_store :: store where
  "init_store = \<lparr>rows = [], next_id = 1\<rparr>"

text \<open>The prepared statement \<open>insertReminder\<close>.\<close>

definition insertReminder ::
  "store \<Rightarrow> string \<Rightarrow> string \<Rightarrow> string option \<Rightarrow> string \<Rightarrow> string \<Rightarrow> string \<Rightarrow> store" where
  "insertReminder db uid cid gid txt run_at created =
     \<lparr>rows = rows db @
        [\<lparr>rid = next_id db, user_id = uid, channel_id = cid, guild_id = gid, rtext = txt,
          run_at_iso = run_at, delivered = False, created_at_iso = created\<rparr>],
      next_id = Suc (next_id db)\<rparr>"

text \<open>
  The prepared statement \<open>dueReminders\<close>: the undelivered rows with
  \<open>run_at_iso <= ?\<close>, ordered by \<open>run_at_iso\<close> (rows with equal keys stay in table
  order).
\<close>

definition is_due :: "string \<Rightarrow> reminder \<Rightarrow> bool" where
  "is_due nowISO r \<longleftrightarrow> \<not> delivered r \<and> run_at_iso r \<le> nowISO"

definition dueReminders :: "store \<Rightarrow> string \<Rightarrow> reminder list" where
  "dueReminders db nowISO = sort_key run_at_iso (filter (is_due nowISO) (rows db))"

text \<open>The prepared statement \<open>markDelivered\<close>.\<close>

definition markDelivered :: "store \<Rightarrow> nat \<Rightarrow> store" where
  "markDelivered db i =
     db\<lparr>rows := map (\<lambda>r. if rid r = i then r\<lparr>delivered := True\<rparr> else r) (rows db)\<rparr>"

text \<open>
  The handler of the \<open>remind\<close> command. What the luxon library computes is an input:
  \<open>dt\<close> is the result of \<open>DateTime.fromFormat(when, 'yyyy-LL-dd HH:mm', {zone: tz})\<close>,
  \<open>None\<close> when it is not valid and otherwise its instant in epoch milliseconds;
  \<open>now\<close> is the instant of \<open>DateTime.now()\<close>; \<open>toISO\<close> is the library's formatting
  of an instant as a UTC ISO string; \<open>created\<close> is \<open>new Date().toISOString()\<close>.
  The handler returns the kind of its reply and the store.
\<close>

datatype reply = InvalidTimeFormat | PastTime | ReminderSaved

definition remind ::
  "(int \<Rightarrow> string) \<Rightarrow> store \<Rightarrow> string \<Rightarrow> string \<Rightarrow> string option \<Rightarrow> string \<Rightarrow>
     int option \<Rightarrow> int \<Rightarrow> string \<Rightarrow> reply \<times> store" where
  "remind toISO db uid cid gid txt dt now created =
     (case dt of
        None \<Rightarrow> (InvalidTimeFormat, db)
      | Some t \<Rightarrow>
          if t < now then (PastTime, db)
          else (ReminderSaved, insertReminder db uid cid gid txt (toISO t) created))"

text \<open>
  One tick of the scheduler. \<open>deliver r\<close> tells whether fetching the channel and
  sending the message both succeed for the row \<open>r\<close>. The tick returns the rows it
  attempts to deliver, in the order of the attempts, and the store once every
  attempt of the tick has completed: the model does not interleave a tick with other
  operations.
\<close>

definition tick :: "(reminder \<Rightarrow> bool) \<Rightarrow> store \<Rightarrow> string \<Rightarrow> reminder list \<times> store" where
  "tick deliver db nowISO =
     (let due = dueReminders db nowISO
      in (due, fold (\<lambda>r d. if deliver r then markDelivered d (rid r) else d) due db))"

text \<open>The operations of the program on the table, and the stores they reach.\<close>

inductive step :: "store \<Rightarrow> store \<Rightarrow> bool" where
  step_remind: "step db (snd (remind toISO db uid cid gid txt dt now created))"
| step_tick: "step db (snd (tick deliver db nowISO))"

definition reachable :: "store \<Rightarrow> bool" where
  "reachable db \<longleftrightarrow> step\<^sup>*\<^sup>* init_store db"

section \<open>Streaming relay (src/llm/lunacore.js, src/unnamed/part_000)\<close>

text \<open>\<open>frame.split(/\r?\n/)\<close>: the separator is a newline with an optional carriage
  return before it.\<close>

fun cons_first :: "char \<Rightarrow> string list \<Rightarrow> string list" where
  "cons_first a [] = [[a]]"
| "cons_first a (l # ls) = (a # l) # ls"

fun split_lines :: "string \<Rightarrow> string list" where
  "split_lines [] = [[]]"
| "split_lines [a] = (if a = NL then [[], []] else [[a]])"
| "split_lines (a # b # cs) =
     (if a = NL then [] # split_lines (b # cs)
      else if a = CR \<and> b = NL then [] # split_lines cs
      else cons_first a (split_lines (b # cs)))"

text \<open>\<open>datas.join('\n')\<close>.\<close>

fun join_nl :: "string list \<Rightarrow> string" where
  "join_nl [] = []"
| "join_nl [d] = d"
| "join_nl (d # e # ds) = d @ NL # join_nl (e # ds)"

text \<open>
  The body of the \<open>for\<close> loop over the lines of a frame, on the pair of the variables
  \<open>event\<close> and \<open>datas\<close>, and the loop from their initial values.
\<close>

definition parse_line :: "string \<Rightarrow> string \<times> string list \<Rightarrow> string \<times> string list" where
  "parse_line rawLine st =
     (case st of (event, datas) \<Rightarrow>
        if startsWith rawLine ''event:'' then (trim (drop 6 rawLine), datas)
        else if startsWith rawLine ''data:'' then
          (let payload = drop 5 rawLine;
               payload = (if startsWith payload [SP] then drop 1 payload else payload)
           in (event, datas @ [payload]))
        else (event, datas))"

definition parse_frame :: "string \<Rightarrow> string \<times> string list" where
  "parse_frame frame = fold parse_line (split_lines frame) (''message'', [])"

text \<open>
  How the generator leaves its loop: it returns on a \<open>done\<close> frame, it returns when the
  reader reports the end of the stream, or an exception leaves it.
\<close>

datatype outcome = Returned | StreamEnd | Thrown string

text \<open>What one frame makes the generator do: yield fragments and go on, or yield
  fragments and leave.\<close>

datatype frame_result = Continue "string list" | Leave "string list" outcome

definition fallback :: string where
  "fallback = ''I'm having trouble connecting to the main server, can someone help me ping Skeath?''"

text \<open>The three \<open>if\<close> statements after the frame is parsed, in src/llm/lunacore.js.\<close>

definition on_frame :: "string \<Rightarrow> frame_result" where
  "on_frame frame =
     (case parse_frame frame of (event, datas) \<Rightarrow>
        let payload = join_nl datas;
            ys = (if event = ''error'' then [fallback] else [])
        in if event = ''done'' then Leave ys Returned
           else Continue (ys @ (if payload \<noteq> [] then [payload] else [])))"

text \<open>The same in src/unnamed/part_000, where an \<open>error\<close> frame throws.\<close>

definition on_frame_throwing :: "string \<Rightarrow> frame_result" where
  "on_frame_throwing frame =
     (case parse_frame frame of (event, datas) \<Rightarrow>
        let payload = join_nl datas
        in if event = ''error''
           then Leave [] (Thrown (if payload \<noteq> [] then payload else ''stream error''))
           else if event = ''done'' then Leave [] Returned
           else Continue (if payload \<noteq> [] then [payload] else []))"

text \<open>
  The inner \<open>while\<close> loop: it takes the frames off the front of \<open>buf\<close>. It returns the
  fragments yielded and either the outcome that left the generator or the rest of
  \<open>buf\<close>.
\<close>

function drain :: "(string \<Rightarrow> frame_result) \<Rightarrow> string \<Rightarrow> string list \<times> (outcome + string)" where
  "drain h buf =
     (case index_blank buf of
        None \<Rightarrow> ([], Inr buf)
      | Some sep \<Rightarrow>
          (case h (take sep buf) of
             Leave ys oc \<Rightarrow> (ys, Inl oc)
           | Continue ys \<Rightarrow>
               (case drain h (drop (sep + 2) buf) of (zs, r) \<Rightarrow> (ys @ zs, r))))"
  by pat_completeness auto
termination
proof (relation "measure (\<lambda>(h, buf). length buf)")
  show "wf (measure (\<lambda>(h, buf). length buf))" by simp
next
  fix h :: "string \<Rightarrow> frame_result" and buf :: string and sep ys
  assume "index_blank buf = Some sep"
  then have "sep + 2 \<le> length buf"
    by (induction buf arbitrary: sep rule: index_blank.induct) (auto split: if_splits)
  then show "((h, drop (sep + 2) buf), (h, buf)) \<in> measure (\<lambda>(h, buf). length buf)"
    by simp
qed

text \<open>
  The outer \<open>while (true)\<close> loop over the chunks that \<open>reader.read()\<close> delivers, already
  decoded; the end of the list is \<open>done\<close>.
\<close>

fun read_loop :: "(string \<Rightarrow> frame_result) \<Rightarrow> string \<Rightarrow> string list \<Rightarrow> string list \<times> outcome" where
  "read_loop h buf [] = ([], StreamEnd)"
| "read_loop h buf (v # vs) =
     (case drain h (buf @ v) of
        (ys, Inl oc) \<Rightarrow> (ys, oc)
      | (ys, Inr buf') \<Rightarrow> (case read_loop h buf' vs of (zs, oc) \<Rightarrow> (ys @ zs, oc)))"

text \<open>
  The generator from the point where the response body is read: the fragments it
  yields, in order, and how it ends.
\<close>

definition lunaChatStream :: "string list \<Rightarrow> string list \<times> outcome" where
  "lunaChatStream chunks = read_loop on_frame [] chunks"

definition lunaChatStream_throwing :: "string list \<Rightarrow> string list \<times> outcome" where
  "lunaChatStream_throwing chunks = read_loop on_frame_throwing [] chunks"

section \<open>Notions used in the statements and proofs\<close>

subsection \<open>Segments and stores\<close>

text \<open>A string that does not end in a white-space character.\<close>

definition trimmed_end :: "string \<Rightarrow> bool" where
  "trimmed_end c \<longleftrightarrow> c = [] \<or> \<not> is_ws (last c)"

text \<open>
  What \<open>pushSmart\<close> appends for one segment: no chunk longer than \<open>maxLen\<close>, no chunk
  but the last ending in white space, at least one chunk for a segment longer than
  \<open>maxLen\<close>, and at most \<open>k + 1\<close> chunks for a segment of at most
  \<open>maxLen + k * min_fill maxLen\<close> characters.
\<close>

definition smart_post :: "nat \<Rightarrow> string \<Rightarrow> string list \<Rightarrow> bool" where
  "smart_post maxLen segment out \<longleftrightarrow>
     list_all (\<lambda>c. length c \<le> maxLen) out
     \<and> list_all trimmed_end (butlast out)
     \<and> (maxLen < length segment \<longrightarrow> out \<noteq> [])
     \<and> (\<forall>k. length segment \<le> maxLen + k * min_fill maxLen \<longrightarrow> length out \<le> Suc k)"

text \<open>Marking as delivered every row whose key is in a set.\<close>

definition mark :: "nat set \<Rightarrow> reminder \<Rightarrow> reminder" where
  "mark I r = (if rid r \<in> I then r\<lparr>delivered := True\<rparr> else r)"

text \<open>The keys of the table are distinct and below the next key.\<close>

definition wf_store :: "store \<Rightarrow> bool" where
  "wf_store db \<longleftrightarrow> distinct (map rid (rows db)) \<and> list_all (\<lambda>r. rid r < next_id db) (rows db)"

text \<open>
  The rows of \<open>db\<close> are still rows of \<open>db'\<close>, at the same positions and with the same
  columns but \<open>delivered\<close>, which has not gone back from true to false.
\<close>

definition keeps :: "store \<Rightarrow> store \<Rightarrow> bool" where
  "keeps db db' \<longleftrightarrow>
     length (rows db) \<le> length (rows db')
     \<and> (\<forall>i<length (rows db).
          rows db' ! i = (rows db ! i)\<lparr>delivered := delivered (rows db' ! i)\<rparr>
          \<and> (delivered (rows db ! i) \<longrightarrow> delivered (rows db' ! i)))"

subsection \<open>White space and word boundaries in the words of the specification\<close>

text \<open>
  The definitions of this subsection and of the next follow sections 4.2 and 4.3 of the
  specification, not the code, and use none of the functions that model the code (only
  the character class \<open>is_ws\<close> is common to both); the code is compared with them
  below. First, white space removed at the left end, at the right end, and at both.
\<close>

definition strip_left :: "string \<Rightarrow> string" where
  "strip_left s = drop (length (takeWhile is_ws s)) s"

definition strip_right :: "string \<Rightarrow> string" where
  "strip_right s = take (length s - length (takeWhile is_ws (rev s))) s"

definition strip_ws :: "string \<Rightarrow> string" where
  "strip_ws s = strip_right (strip_left s)"

text \<open>The minimum fill: 60% of the maximum length.\<close>

definition fill60 :: "nat \<Rightarrow> nat" where
  "fill60 maxLen = 6 * maxLen div 10"

text \<open>
  Where a text without newlines that is longer than \<open>maxLen\<close> is cut: at the last
  space whose index is at least the minimum fill and at most \<open>maxLen\<close> (a word
  boundary), and at \<open>maxLen\<close> (a hard cut, possibly inside a word) when there is no
  such space.
\<close>

definition word_cut :: "nat \<Rightarrow> string \<Rightarrow> nat" where
  "word_cut maxLen s =
     (case filter (\<lambda>k. k < length s \<and> s ! k = SP) (rev [fill60 maxLen ..< Suc maxLen]) of
        [] \<Rightarrow> maxLen
      | k # _ \<Rightarrow> k)"

text \<open>
  The segments of a text without newlines: as long as more than \<open>maxLen\<close> characters
  remain, the text before the cut is a segment, without the white space at its end, and
  the text from the cut on remains, without the white space at its start; what remains
  at the end is the last segment, unless it is empty. The first argument bounds the
  number of cuts; the length of the text is enough when the minimum fill is positive.
\<close>

fun word_chunks_aux :: "nat \<Rightarrow> nat \<Rightarrow> string \<Rightarrow> string list" where
  "word_chunks_aux 0 maxLen s = (if s = [] then [] else [s])"
| "word_chunks_aux (Suc n) maxLen s =
     (if length s \<le> maxLen then (if s = [] then [] else [s])
      else strip_right (take (word_cut maxLen s) s) #
           word_chunks_aux n maxLen (strip_left (drop (word_cut maxLen s) s)))"

definition word_chunks :: "nat \<Rightarrow> string \<Rightarrow> string list" where
  "word_chunks maxLen s = word_chunks_aux (length s) maxLen s"

subsection \<open>The framing protocol in the words of the specification\<close>

text \<open>
  The stream is read character by character: a blank line (two consecutive newlines)
  ends the frame read so far, and what follows the last blank line is no frame.
\<close>

fun scan_frames :: "string \<Rightarrow> string \<Rightarrow> string list" where
  "scan_frames cur (a # b # s) =
     (if a = NL \<and> b = NL then rev cur # scan_frames [] s
      else scan_frames (a # cur) (b # s))"
| "scan_frames cur s = []"

definition spec_frames :: "string \<Rightarrow> string list" where
  "spec_frames s = scan_frames [] s"

text \<open>
  The lines of a frame: the pieces between its newlines, where a carriage return just
  before a newline belongs to the line break.
\<close>

fun pieces_nl :: "string \<Rightarrow> string list" where
  "pieces_nl [] = [[]]"
| "pieces_nl (c # s) =
     (if c = NL then [] # pieces_nl s
      else case pieces_nl s of [] \<Rightarrow> [[c]] | p # ps \<Rightarrow> (c # p) # ps)"

definition drop_cr :: "string \<Rightarrow> string" where
  "drop_cr l = (if l \<noteq> [] \<and> last l = CR then butlast l else l)"

definition spec_lines :: "string \<Rightarrow> string list" where
  "spec_lines s = map drop_cr (butlast (pieces_nl s)) @ [last (pieces_nl s)]"

text \<open>Exactly one optional leading space is stripped.\<close>

definition strip_space :: "string \<Rightarrow> string" where
  "strip_space p = (case p of [] \<Rightarrow> [] | c # cs \<Rightarrow> if c = SP then cs else p)"

text \<open>Payloads joined with newlines: a newline before every payload but the first.\<close>

definition spec_join :: "string list \<Rightarrow> string" where
  "spec_join ds = (case ds of [] \<Rightarrow> [] | d # es \<Rightarrow> d @ concat (map (\<lambda>e. NL # e) es))"

text \<open>
  The kind of a frame is that of its \<open>event:\<close> line, without the white space around
  it, and \<open>message\<close> when the frame has no such line (the specification allows at
  most one; of several, the last counts).
\<close>

definition spec_kind :: "string \<Rightarrow> string" where
  "spec_kind frame =
     (case filter (\<lambda>l. take 6 l = ''event:'') (spec_lines frame) of
        [] \<Rightarrow> ''message''
      | e # es \<Rightarrow> strip_ws (drop 6 (last (e # es))))"

text \<open>The payloads of the \<open>data:\<close> lines, each without one leading space, joined with
  newlines.\<close>

definition spec_payload :: "string \<Rightarrow> string" where
  "spec_payload frame =
     spec_join (map (\<lambda>l. strip_space (drop 5 l))
                  (filter (\<lambda>l. take 5 l = ''data:'') (spec_lines frame)))"

text \<open>
  A \<open>done\<close> frame ends the sequence and its payload is discarded; any other frame
  yields its payload as one fragment when the payload is not empty. (The frames of
  kind \<open>error\<close> are excluded where this definition is compared with the code.)
\<close>

fun spec_emit :: "string list \<Rightarrow> string list \<times> outcome" where
  "spec_emit [] = ([], StreamEnd)"
| "spec_emit (f # fs) =
     (if spec_kind f = ''done'' then ([], Returned)
      else case spec_emit fs of
             (ys, oc) \<Rightarrow> ((if spec_payload f \<noteq> [] then [spec_payload f] else []) @ ys, oc))"

definition spec_relay :: "string \<Rightarrow> string list \<times> outcome" where
  "spec_relay s = spec_emit (spec_frames s)"

subsection \<open>The loops of the generator as a run over the frames\<close>

text \<open>The frames that the generator's \<open>indexOf\<close> and \<open>slice\<close> take off a buffer.\<close>

function frames_of :: "string \<Rightarrow> string list" where
  "frames_of s =
     (case index_blank s of
        None \<Rightarrow> []
      | Some i \<Rightarrow> take i s # frames_of (drop (i + 2) s))"
  by pat_completeness auto
termination
proof (relation "measure length")
  show "wf (measure length)" by simp
next
  fix s :: string and i
  assume "index_blank s = Some i"
  then have "i + 2 \<le> length s"
    by (induction s arbitrary: i rule: index_blank.induct) (auto split: if_splits)
  then show "(drop (i + 2) s, s) \<in> measure length" by simp
qed

text \<open>What is left of a buffer once its frames are taken off.\<close>

function rest_of :: "string \<Rightarrow> string" where
  "rest_of s = (case index_blank s of None \<Rightarrow> s | Some i \<Rightarrow> rest_of (drop (i + 2) s))"
  by pat_completeness auto
termination
proof (relation "measure length")
  show "wf (measure length)" by simp
next
  fix s :: string and i
  assume "index_blank s = Some i"
  then have "i + 2 \<le> length s"
    by (induction s arbitrary: i rule: index_blank.induct) (auto split: if_splits)
  then show "(drop (i + 2) s, s) \<in> measure length" by simp
qed

text \<open>The frame handler run over a list of frames, until one of them leaves.\<close>

fun run_frames :: "(string \<Rightarrow> frame_result) \<Rightarrow> string list \<Rightarrow> string list \<times> outcome option" where
  "run_frames h [] = ([], None)"
| "run_frames h (f # fs) =
     (case h f of
        Leave ys oc \<Rightarrow> (ys, Some oc)
      | Continue ys \<Rightarrow> (case run_frames h fs of (zs, r) \<Rightarrow> (ys @ zs, r)))"

text \<open>The end of the stream, where no frame has left the generator before.\<close>

definition finish :: "string list \<times> outcome option \<Rightarrow> string list \<times> outcome" where
  "finish p = (case p of (ys, Some oc) \<Rightarrow> (ys, oc) | (ys, None) \<Rightarrow> (ys, StreamEnd))"

subsection \<open>Concrete inputs\<close>

text \<open>
  A store for concrete runs: three reminders, entered with the \<open>remind\<close> command. The
  formatter \<open>sample_iso\<close> stands for the library's on the three instants used
  (epoch milliseconds).
\<close>

definition sample_iso :: "int \<Rightarrow> string" where
  "sample_iso t =
     (if t = 1735718400000 then ''2025-01-01T08:00:00.000Z''
      else if t = 1735722000000 then ''2025-01-01T09:00:00.000Z''
      else if t = 1748736000000 then ''2025-06-01T00:00:00.000Z''
      else ''1970-01-01T00:00:00.000Z'')"

definition sample_db :: store where
  "sample_db =
     snd (remind sample_iso
       (snd (remind sample_iso
         (snd (remind sample_iso init_store ''u1'' ''c1'' None ''tea'' (Some 1735722000000)
                 1735689600000
                 ''2025-01-01T00:00:00.000Z''))
         ''u2'' ''c2'' (Some ''g'') ''call'' (Some 1735718400000) 1735689601000
           ''2025-01-01T00:00:01.000Z''))
       ''u1'' ''c1'' None ''later'' (Some 1748736000000) 1735689602000
         ''2025-01-01T00:00:02.000Z'')"

text \<open>
  Texts of 5000 characters without newlines: one with a single space, one of four
  words of letters, one of spaces only and one of letters only.
\<close>

definition one_space_text :: string where
  "one_space_text = replicate 1500 (CHR ''a'') @ SP # replicate 3499 (CHR ''b'')"

definition four_words_text :: string where
  "four_words_text =
     replicate 1140 (CHR ''a'') @ SP # replicate 1140 (CHR ''b'') @ SP #
     replicate 1140 (CHR ''c'') @ SP # replicate 1577 (CHR ''d'')"

definition spaces_text :: string where
  "spaces_text = replicate 5000 SP"

definition letters_text :: string where
  "letters_text = replicate 5000 (CHR ''a'')"

text \<open>The stream of the specification's framing example, and one way for it to arrive
  in chunks.\<close>

definition example_stream :: string where
  "example_stream =
     ''event: message'' @ [NL] @ ''data: hello'' @ [NL, NL] @
     ''data:  world'' @ [NL, NL] @
     ''event: done'' @ [NL, NL]"

definition example_chunks :: "string list" where
  "example_chunks =
     [''event: message'' @ [NL] @ ''data: hel'',
      ''lo'' @ [NL],
      [NL] @ ''data:  world'' @ [NL, NL] @ ''event: done'' @ [NL, NL]]"

text \<open>
  A stream whose only frame has two data lines, a line break with a carriage return
  and a line that is neither an event line nor a data line; the stream ends without a
  \<open>done\<close> frame. And one way for it to arrive in chunks.
\<close>

definition multiline_stream :: string where
  "multiline_stream =
     ''data: a'' @ [CR, NL] @ '': note'' @ [NL] @ ''data:  b'' @ [NL, NL]"

definition multiline_chunks :: "string list" where
  "multiline_chunks =
     [''data: a'' @ [CR], [NL] @ '': note'' @ [NL] @ ''data:  b'' @ [NL], [NL]]"

text \<open>The stream of the specification's error example.\<close>

definition error_stream :: string where
  "error_stream = ''event: error'' @ [NL] @ ''data: boom'' @ [NL, NL]"

section \<open>Properties of the chunkers\<close>

lemma index_blank_le: "index_blank s = Some i \<Longrightarrow> i + 2 \<le> length s"
  by (induction s arbitrary: i rule: index_blank.induct) (auto split: if_splits)

subsection \<open>The hard-cutting chunker of src/llm/ollama.js\<close>

lemma chunk_loop_cut:
  "maxLen < length remaining \<Longrightarrow>
   chunk_loop maxLen remaining chunks =
     chunk_loop maxLen (drop maxLen remaining) (chunks @ [take maxLen remaining])"
  by (subst chunk_loop.simps) simp

lemma chunk_loop_end:
  "\<not> maxLen < length remaining \<Longrightarrow>
   chunk_loop maxLen remaining chunks =
     Some (if remaining \<noteq> [] then chunks @ [remaining] else chunks)"
  by (subst chunk_loop.simps) simp

lemma chunk_loop_concat:
  "0 < maxLen \<Longrightarrow>
   \<exists>segs. chunk_loop maxLen remaining chunks = Some (chunks @ segs) \<and> concat segs = remaining"
proof (induction "length remaining" arbitrary: remaining chunks rule: less_induct)
  case less
  show ?case
  proof (cases "maxLen < length remaining")
    case True
    with less.prems have "length (drop maxLen remaining) < length remaining" by simp
    from less.hyps [OF this less.prems, of "chunks @ [take maxLen remaining]"]
    obtain segs where
      s: "chunk_loop maxLen (drop maxLen remaining) (chunks @ [take maxLen remaining])
            = Some ((chunks @ [take maxLen remaining]) @ segs)"
      and c: "concat segs = drop maxLen remaining"
      by blast
    have "chunk_loop maxLen remaining chunks = Some (chunks @ (take maxLen remaining # segs))"
      using True s by (simp add: chunk_loop_cut)
    moreover have "concat (take maxLen remaining # segs) = remaining"
      using c by simp
    ultimately show ?thesis by blast
  next
    case False
    then have "chunk_loop maxLen remaining chunks
                 = Some (chunks @ (if remaining \<noteq> [] then [remaining] else []))"
      by (simp add: chunk_loop_end)
    moreover have "concat (if remaining \<noteq> [] then [remaining] else []) = remaining"
      by simp
    ultimately show ?thesis by blast
  qed
qed

lemma chunk_5000:
  assumes "length s = 5000"
  shows "chunkDiscordMessage s 1900 = Some [take 1900 s, take 1900 (drop 1900 s), drop 3800 s]"
proof -
  have 1: "chunk_loop 1900 s [] = chunk_loop 1900 (drop 1900 s) [take 1900 s]"
    using assms by (simp add: chunk_loop_cut)
  have 2: "chunk_loop 1900 (drop 1900 s) [take 1900 s]
             = chunk_loop 1900 (drop 3800 s) [take 1900 s, take 1900 (drop 1900 s)]"
    using assms by (simp add: chunk_loop_cut)
  have "drop 3800 s \<noteq> []" using assms by simp
  then have 3: "chunk_loop 1900 (drop 3800 s) [take 1900 s, take 1900 (drop 1900 s)]
             = Some [take 1900 s, take 1900 (drop 1900 s), drop 3800 s]"
    using assms by (simp add: chunk_loop_end)
  show ?thesis by (simp only: chunkDiscordMessage_def 1 2 3)
qed

text \<open>
  C10. For the chunker exported by src/llm/ollama.js, every text and every
  \<open>maxLen \<ge> 1\<close>: the call returns, and the segments it returns, concatenated in order,
  are the text itself; nothing is trimmed at a cut.
\<close>

theorem chunk_roundtrip:
  "1 \<le> maxLen \<Longrightarrow> \<exists>segs. chunkDiscordMessage txt maxLen = Some segs \<and> concat segs = txt"
  using chunk_loop_concat [of maxLen "txt" "[]"] by (simp add: chunkDiscordMessage_def)

theorem chunk_roundtrip_witness:
  "(1::nat) \<le> 4 \<and> chunkDiscordMessage ''hello world'' 4 = Some [''hell'', ''o wo'', ''rld'']
   \<and> concat [''hell'', ''o wo'', ''rld''] = ''hello world''"
proof -
  have "(1::nat) \<le> 4" by simp
  from chunk_roundtrip [OF this, of "''hello world''"]
  obtain segs where "chunkDiscordMessage ''hello world'' 4 = Some segs"
    and "concat segs = ''hello world''"
    by blast
  moreover have "chunkDiscordMessage ''hello world'' 4 = Some [''hell'', ''o wo'', ''rld'']"
    by (simp add: chunkDiscordMessage_def chunk_loop_cut chunk_loop_end)
  ultimately show ?thesis by simp
qed

subsection \<open>The boundary-seeking chunker of src/unnamed/part_001\<close>

lemma lastIndexOf_le: "lastIndexOf s pat pos \<le> int pos"
proof (cases "filter (\<lambda>k. take (length pat) (drop k s) = pat)
                  (rev [0 ..< Suc (min pos (length s - length pat))])")
  case Nil
  then show ?thesis by (simp add: lastIndexOf_def)
next
  case (Cons k ks)
  then have "k \<in> set (filter (\<lambda>k. take (length pat) (drop k s) = pat)
                  (rev [0 ..< Suc (min pos (length s - length pat))]))"
    by simp
  then have "k < Suc (min pos (length s - length pat))" by (simp del: upt_Suc)
  then have "k \<le> pos" by simp
  with Cons show ?thesis by (simp add: lastIndexOf_def)
qed

lemma lastIndexOf_absent:
  assumes "pat \<noteq> []" "hd pat \<notin> set s"
  shows "lastIndexOf s pat pos = - 1"
proof -
  have "take (length pat) (drop k s) \<noteq> pat" for k
  proof
    assume e: "take (length pat) (drop k s) = pat"
    with assms(1) have "take (length pat) (drop k s) \<noteq> []" by simp
    then have "hd (take (length pat) (drop k s)) \<in> set (take (length pat) (drop k s))"
      by (rule hd_in_set)
    then have "hd pat \<in> set s"
      using e by (metis in_set_dropD in_set_takeD)
    with assms(2) show False by simp
  qed
  then have "filter (\<lambda>k. take (length pat) (drop k s) = pat)
                  (rev [0 ..< Suc (min pos (length s - length pat))]) = []"
    by simp
  then show ?thesis by (simp add: lastIndexOf_def)
qed

lemma lastIndexOf_at_pos:
  assumes "pos + length pat \<le> length s" "take (length pat) (drop pos s) = pat"
  shows "lastIndexOf s pat pos = int pos"
proof -
  from assms(1) have "min pos (length s - length pat) = pos" by simp
  then have "rev [0 ..< Suc (min pos (length s - length pat))] = pos # rev [0 ..< pos]"
    by simp
  then have "filter (\<lambda>k. take (length pat) (drop k s) = pat)
                  (rev [0 ..< Suc (min pos (length s - length pat))])
               = pos # filter (\<lambda>k. take (length pat) (drop k s) = pat) (rev [0 ..< pos])"
    using assms(2) by simp
  with assms(1) show ?thesis by (simp add: lastIndexOf_def)
qed

lemma lastIndexOf_single:
  assumes "c \<notin> set (take (pos - length xs) ys)" and "length xs \<le> pos"
  shows "lastIndexOf (xs @ c # ys) [c] pos = int (length xs)"
proof -
  let ?s = "xs @ c # ys"
  let ?m = "min pos (length ?s - length [c])"
  let ?P = "\<lambda>k. take (length [c]) (drop k ?s) = [c]"
  have m: "length xs \<le> ?m" using assms(2) by simp
  have split: "[0 ..< Suc ?m] = [0 ..< length xs] @ length xs # [Suc (length xs) ..< Suc ?m]"
  proof -
    from m have "[0 ..< length xs + (Suc ?m - length xs)]
                   = [0 ..< length xs] @ [length xs ..< length xs + (Suc ?m - length xs)]"
      by (intro upt_add_eq_append) simp
    moreover from m have "length xs + (Suc ?m - length xs) = Suc ?m" by simp
    moreover from m have "[length xs ..< Suc ?m] = length xs # [Suc (length xs) ..< Suc ?m]"
      by (intro upt_conv_Cons) simp
    ultimately show ?thesis by simp
  qed
  have no: "filter ?P (rev [Suc (length xs) ..< Suc ?m]) = []"
  proof -
    have "\<not> ?P k" if "k \<in> set [Suc (length xs) ..< Suc ?m]" for k
    proof -
      from that have "Suc (length xs) \<le> k \<and> k < Suc ?m"
        by (simp only: set_upt atLeastLessThan_iff)
      then have k: "length xs < k" and kp: "k \<le> pos" by auto
      let ?j = "k - Suc (length xs)"
      have "take 1 (drop k ?s) = take 1 (drop ?j ys)"
        using k by (simp add: drop_Cons')
      moreover have "take 1 (drop ?j ys) \<noteq> [c]"
      proof
        assume e: "take 1 (drop ?j ys) = [c]"
        then have d: "drop ?j ys \<noteq> []" by auto
        then have j: "?j < length ys" by simp
        from e d have "hd (drop ?j ys) = c" by (cases "drop ?j ys") simp_all
        with j have "ys ! ?j = c" by (simp add: hd_drop_conv_nth)
        moreover from k kp have "?j < pos - length xs" by simp
        ultimately have "c \<in> set (take (pos - length xs) ys)"
          using j by (auto simp: in_set_conv_nth)
        with assms(1) show False by simp
      qed
      ultimately show ?thesis by simp
    qed
    then show ?thesis by (simp add: filter_empty_conv del: upt_Suc)
  qed
  have hit: "?P (length xs)" by simp
  have "filter ?P (rev [0 ..< Suc ?m])
          = length xs # filter ?P (rev [0 ..< length xs])"
    unfolding split using no hit by (simp del: upt_Suc)
  then show ?thesis
    by (simp add: lastIndexOf_def del: upt_Suc)
qed

lemma smart_cut_le: "smart_cut maxLen segment \<le> maxLen"
proof -
  have "(if c < int (min_fill maxLen) then maxLen else nat c) \<le> maxLen"
    if "c \<le> int maxLen" for c
    using that by (cases "c < int (min_fill maxLen)") simp_all
  then show ?thesis
    unfolding smart_cut_def Let_def by (simp add: lastIndexOf_le)
qed

lemma smart_cut_ge: "min_fill maxLen \<le> smart_cut maxLen segment"
proof -
  have "min_fill maxLen \<le> (if c < int (min_fill maxLen) then maxLen else nat c)" for c
    by (cases "c < int (min_fill maxLen)") (simp_all add: min_fill_def)
  then show ?thesis
    unfolding smart_cut_def Let_def by blast
qed

lemma smart_cut_hard:
  "NL \<notin> set segment \<Longrightarrow> SP \<notin> set segment \<Longrightarrow> 0 < min_fill maxLen \<Longrightarrow>
   smart_cut maxLen segment = maxLen"
  by (simp add: smart_cut_def Let_def lastIndexOf_absent)

lemma length_trimEnd_le: "length (trimEnd s) \<le> length s"
  using length_dropWhile_le [of is_ws "rev s"] by (simp add: trimEnd_def)

lemma length_trimStart_le: "length (trimStart s) \<le> length s"
  by (simp add: trimStart_def length_dropWhile_le)

lemma trimEnd_trimmed: "trimmed_end (trimEnd s)"
proof (cases "dropWhile is_ws (rev s)")
  case Nil
  then show ?thesis by (simp add: trimEnd_def trimmed_end_def)
next
  case (Cons a as)
  then have "\<not> is_ws a" using hd_dropWhile [of is_ws "rev s"] by simp
  with Cons show ?thesis by (simp add: trimEnd_def trimmed_end_def)
qed

lemma pushSmart_cut:
  "maxLen < length segment \<Longrightarrow>
   pushSmart maxLen segment chunks =
     pushSmart maxLen (trimStart (drop (smart_cut maxLen segment) segment))
       (chunks @ [trimEnd (take (smart_cut maxLen segment) segment)])"
  by (subst pushSmart.simps) simp

lemma pushSmart_end:
  "\<not> maxLen < length segment \<Longrightarrow>
   pushSmart maxLen segment chunks =
     Some (if segment \<noteq> [] then chunks @ [segment] else chunks)"
  by (subst pushSmart.simps) simp

lemma pushSmart_props:
  assumes m: "0 < min_fill maxLen"
  shows "\<exists>out. pushSmart maxLen segment chunks = Some (chunks @ out)
               \<and> smart_post maxLen segment out"
proof (induction "length segment" arbitrary: segment chunks rule: less_induct)
  case less
  let ?cut = "smart_cut maxLen segment"
  let ?c = "trimEnd (take ?cut segment)"
  let ?rest = "trimStart (drop ?cut segment)"
  show ?case
  proof (cases "maxLen < length segment")
    case False
    then have "pushSmart maxLen segment chunks
                 = Some (chunks @ (if segment \<noteq> [] then [segment] else []))"
      by (simp add: pushSmart_end)
    moreover from False
    have "smart_post maxLen segment (if segment \<noteq> [] then [segment] else [])"
      by (simp add: smart_post_def)
    ultimately show ?thesis by blast
  next
    case True
    have cut_le: "?cut \<le> maxLen" by (rule smart_cut_le)
    have cut_ge: "min_fill maxLen \<le> ?cut" by (rule smart_cut_ge)
    have rest_le: "length ?rest \<le> length segment - ?cut"
      using length_trimStart_le [of "drop ?cut segment"] by simp
    with True cut_ge m have "length ?rest < length segment" by simp
    from less [OF this, of "chunks @ [?c]"] obtain out where
      run: "pushSmart maxLen ?rest (chunks @ [?c]) = Some ((chunks @ [?c]) @ out)"
      and post: "smart_post maxLen ?rest out"
      by blast
    have eq: "pushSmart maxLen segment chunks = Some (chunks @ (?c # out))"
      using True run by (simp add: pushSmart_cut)
    have c_len: "length ?c \<le> maxLen"
      using length_trimEnd_le [of "take ?cut segment"] cut_le by simp
    have count: "length (?c # out) \<le> Suc k"
      if k: "length segment \<le> maxLen + k * min_fill maxLen" for k
    proof (cases k)
      case 0
      with k True show ?thesis by simp
    next
      case (Suc j)
      with k rest_le cut_ge have "length ?rest \<le> maxLen + j * min_fill maxLen" by simp
      with post have "length out \<le> Suc j" by (simp add: smart_post_def)
      with Suc show ?thesis by simp
    qed
    have "list_all trimmed_end (butlast (?c # out))"
      using trimEnd_trimmed [of "take ?cut segment"] post by (simp add: smart_post_def)
    moreover have "list_all (\<lambda>c. length c \<le> maxLen) (?c # out)"
      using c_len post by (simp add: smart_post_def)
    ultimately have "smart_post maxLen segment (?c # out)"
      using count unfolding smart_post_def by blast
    with eq show ?thesis by blast
  qed
qed

lemma index_blank_none: "NL \<notin> set s \<Longrightarrow> index_blank s = None"
  by (induction s rule: index_blank.induct) auto

lemma smart_single_para:
  "txt \<noteq> [] \<Longrightarrow> NL \<notin> set txt \<Longrightarrow> chunkDiscordMessage_smart txt maxLen = pushSmart maxLen txt []"
  by (simp add: chunkDiscordMessage_smart_def index_blank_none split: option.splits)

lemma min_fill_1900: "min_fill 1900 = 1140"
  by (simp add: min_fill_def)

lemma trim_replicate_a:
  "trimEnd (replicate n (CHR ''a'')) = replicate n (CHR ''a'')"
  "trimStart (replicate n (CHR ''a'')) = replicate n (CHR ''a'')"
  by (simp_all add: trimEnd_def trimStart_def is_ws_def)

lemma smart_5000_a:
  "chunkDiscordMessage_smart (replicate 5000 (CHR ''a'')) 1900
     = Some [replicate 1900 (CHR ''a''), replicate 1900 (CHR ''a''), replicate 1200 (CHR ''a'')]"
proof -
  have cut: "smart_cut 1900 (replicate n (CHR ''a'')) = 1900" for n
    by (rule smart_cut_hard) (simp_all add: min_fill_1900)
  have "pushSmart 1900 (replicate 5000 (CHR ''a'')) []
          = pushSmart 1900 (replicate 3100 (CHR ''a'')) [replicate 1900 (CHR ''a'')]"
    by (simp add: pushSmart_cut cut trim_replicate_a)
  also have "\<dots> = pushSmart 1900 (replicate 1200 (CHR ''a''))
                     [replicate 1900 (CHR ''a''), replicate 1900 (CHR ''a'')]"
    by (simp add: pushSmart_cut cut trim_replicate_a)
  also have "\<dots> = Some [replicate 1900 (CHR ''a''), replicate 1900 (CHR ''a''),
                          replicate 1200 (CHR ''a'')]"
    by (simp add: pushSmart_end)
  finally show ?thesis by (simp add: smart_single_para)
qed

lemma smart_5000_spaces:
  "chunkDiscordMessage_smart (replicate 5000 SP) 1900 = Some [[]]"
proof -
  have "lastIndexOf (replicate 5000 SP) [SP] 1900 = 1900"
    using lastIndexOf_at_pos [of 1900 "[SP]" "replicate 5000 SP"] by simp
  then have cut: "smart_cut 1900 (replicate 5000 SP) = 1900"
    by (simp add: smart_cut_def Let_def lastIndexOf_absent min_fill_1900)
  have "pushSmart 1900 (replicate 5000 SP) [] = pushSmart 1900 [] [[]]"
    by (simp add: pushSmart_cut cut trimStart_def trimEnd_def is_ws_def)
  also have "\<dots> = Some [[]]" by (simp add: pushSmart_end)
  finally show ?thesis by (simp add: smart_single_para)
qed

text \<open>A cut at a word boundary: the space at the cut is in neither segment.\<close>

lemma smart_word_cut:
  "chunkDiscordMessage_smart
     (replicate 1500 (CHR ''a'') @ SP # replicate 3499 (CHR ''b'')) 1900
   = Some [replicate 1500 (CHR ''a''), replicate 1900 (CHR ''b''), replicate 1599 (CHR ''b'')]"
proof -
  let ?t = "replicate 1500 (CHR ''a'') @ SP # replicate 3499 (CHR ''b'')"
  have "lastIndexOf ?t [SP] 1900 = 1500"
    using lastIndexOf_single [where c = SP and ys = "replicate 3499 (CHR ''b'')"
        and xs = "replicate 1500 (CHR ''a'')" and pos = 1900]
    by simp
  then have cut: "smart_cut 1900 ?t = 1500"
    by (simp add: smart_cut_def Let_def lastIndexOf_absent min_fill_1900)
  have cutb: "smart_cut 1900 (replicate n (CHR ''b'')) = 1900" for n
    by (rule smart_cut_hard) (simp_all add: min_fill_1900)
  have trims: "trimEnd (replicate n (CHR ''a'')) = replicate n (CHR ''a'')"
    "trimEnd (replicate n (CHR ''b'')) = replicate n (CHR ''b'')"
    "trimStart (replicate n (CHR ''b'')) = replicate n (CHR ''b'')"
    "trimStart (SP # replicate n (CHR ''b'')) = replicate n (CHR ''b'')" for n
    by (simp_all add: trimEnd_def trimStart_def is_ws_def)
  have "pushSmart 1900 ?t []
          = pushSmart 1900 (replicate 3499 (CHR ''b'')) [replicate 1500 (CHR ''a'')]"
    by (simp add: pushSmart_cut [of 1900 ?t] cut trims)
  also have "\<dots> = pushSmart 1900 (replicate 1599 (CHR ''b''))
                     [replicate 1500 (CHR ''a''), replicate 1900 (CHR ''b'')]"
    by (simp add: pushSmart_cut cutb trims)
  also have "\<dots> = Some [replicate 1500 (CHR ''a''), replicate 1900 (CHR ''b''),
                          replicate 1599 (CHR ''b'')]"
    by (simp add: pushSmart_end)
  finally show ?thesis by (simp add: smart_single_para)
qed

subsection \<open>The boundary-seeking chunker against the specification\<close>

lemma min_fill_fill60: "min_fill maxLen = fill60 maxLen"
  unfolding min_fill_def fill60_def by presburger

lemma lastIndexOf_space_window:
  assumes "maxLen < length s"
  shows "lastIndexOf s [SP] maxLen =
           (case filter (\<lambda>k. k < length s \<and> s ! k = SP) (rev [fill60 maxLen ..< Suc maxLen]) of
              [] \<Rightarrow> (case filter (\<lambda>k. k < length s \<and> s ! k = SP) (rev [0 ..< fill60 maxLen]) of
                       [] \<Rightarrow> - 1 | k # _ \<Rightarrow> int k)
            | k # _ \<Rightarrow> int k)"
proof -
  let ?Q = "\<lambda>k. k < length s \<and> s ! k = SP"
  let ?m = "fill60 maxLen"
  have m: "?m \<le> Suc maxLen" by (simp add: fill60_def)
  have min: "min maxLen (length s - length [SP]) = maxLen" using assms by simp
  have cong: "filter (\<lambda>k. take (length [SP]) (drop k s) = [SP]) (rev [0 ..< Suc maxLen])
                = filter ?Q (rev [0 ..< Suc maxLen])"
  proof (rule filter_cong [OF refl])
    fix k assume "k \<in> set (rev [0 ..< Suc maxLen])"
    then have "k < Suc maxLen" by (simp del: upt_Suc)
    with assms have k: "k < length s" by simp
    then show "(take (length [SP]) (drop k s) = [SP]) = ?Q k"
      by (simp add: take_Suc_conv_app_nth)
  qed
  have "[0 ..< ?m + (Suc maxLen - ?m)] = [0 ..< ?m] @ [?m ..< ?m + (Suc maxLen - ?m)]"
    by (intro upt_add_eq_append) simp
  with m have "[0 ..< Suc maxLen] = [0 ..< ?m] @ [?m ..< Suc maxLen]" by simp
  then have "rev [0 ..< Suc maxLen] = rev [?m ..< Suc maxLen] @ rev [0 ..< ?m]"
    by (simp only: rev_append)
  then have "filter ?Q (rev [0 ..< Suc maxLen])
               = filter ?Q (rev [?m ..< Suc maxLen]) @ filter ?Q (rev [0 ..< ?m])"
    by (simp only: filter_append)
  with cong have "filter (\<lambda>k. take (length [SP]) (drop k s) = [SP])
                    (rev [0 ..< Suc (min maxLen (length s - length [SP]))])
               = filter ?Q (rev [?m ..< Suc maxLen]) @ filter ?Q (rev [0 ..< ?m])"
    by (simp only: min)
  moreover have "\<not> length s < length [SP]" using assms by auto
  ultimately show ?thesis
    unfolding lastIndexOf_def by (simp only: if_False) (simp split: list.splits)
qed

lemma smart_cut_word:
  assumes "NL \<notin> set s" and "maxLen < length s"
  shows "smart_cut maxLen s = word_cut maxLen s"
proof -
  let ?Q = "\<lambda>k. k < length s \<and> s ! k = SP"
  let ?m = "fill60 maxLen"
  let ?hi = "filter ?Q (rev [?m ..< Suc maxLen])"
  let ?lo = "filter ?Q (rev [0 ..< ?m])"
  have nn: "lastIndexOf s [NL, NL] maxLen = - 1" "lastIndexOf s [NL] maxLen = - 1"
    using assms(1) by (simp_all add: lastIndexOf_absent)
  have cut: "smart_cut maxLen s
               = (if lastIndexOf s [SP] maxLen < int ?m then maxLen
                  else nat (lastIndexOf s [SP] maxLen))"
    by (simp add: smart_cut_def nn min_fill_fill60)
  show ?thesis
  proof (cases ?hi)
    case (Cons k ks)
    then have "k \<in> set ?hi" by simp
    then have "?m \<le> k" by (simp del: upt_Suc)
    moreover from Cons have "lastIndexOf s [SP] maxLen = int k"
      by (simp add: lastIndexOf_space_window [OF assms(2)])
    ultimately show ?thesis using Cons by (simp add: cut word_cut_def)
  next
    case Nil
    have "lastIndexOf s [SP] maxLen < int ?m"
    proof (cases ?lo)
      case Nil
      with \<open>?hi = []\<close> show ?thesis
        by (simp add: lastIndexOf_space_window [OF assms(2)])
    next
      case (Cons k ks)
      then have "k \<in> set ?lo" by simp
      then have "k < ?m" by simp
      with Cons \<open>?hi = []\<close> show ?thesis
        by (simp add: lastIndexOf_space_window [OF assms(2)])
    qed
    with Nil show ?thesis by (simp add: cut word_cut_def)
  qed
qed

lemma set_trimStart: "set (trimStart s) \<subseteq> set s"
  by (simp add: trimStart_def set_dropWhileD subsetI)

lemma trimStart_strip_left: "trimStart s = strip_left s"
  by (simp add: trimStart_def strip_left_def dropWhile_eq_drop)

lemma trimEnd_strip_right: "trimEnd s = strip_right s"
  by (simp add: trimEnd_def strip_right_def dropWhile_eq_drop rev_drop)

lemma pushSmart_word:
  assumes m: "0 < min_fill maxLen"
  shows "NL \<notin> set s \<Longrightarrow> length s \<le> n \<Longrightarrow>
         pushSmart maxLen s chunks = Some (chunks @ word_chunks_aux n maxLen s)"
proof (induction n arbitrary: s chunks)
  case 0
  then show ?case by (simp add: pushSmart_end)
next
  case (Suc n)
  show ?case
  proof (cases "maxLen < length s")
    case False
    then show ?thesis by (simp add: pushSmart_end)
  next
    case True
    let ?c = "smart_cut maxLen s"
    let ?rest = "trimStart (drop ?c s)"
    have c: "?c = word_cut maxLen s" using Suc.prems(1) True by (rule smart_cut_word)
    have "min_fill maxLen \<le> ?c" by (rule smart_cut_ge)
    with m have "0 < ?c" by simp
    moreover have "length ?rest \<le> length s - ?c"
      using length_trimStart_le [of "drop ?c s"] by simp
    ultimately have len: "length ?rest \<le> n" using Suc.prems(2) True by simp
    have "set ?rest \<subseteq> set (drop ?c s)" by (rule set_trimStart)
    also have "\<dots> \<subseteq> set s" by (rule set_drop_subset)
    finally have nl: "NL \<notin> set ?rest" using Suc.prems(1) by blast
    have "pushSmart maxLen s chunks
            = pushSmart maxLen ?rest (chunks @ [trimEnd (take ?c s)])"
      using True by (rule pushSmart_cut)
    also have "\<dots> = Some ((chunks @ [trimEnd (take ?c s)]) @ word_chunks_aux n maxLen ?rest)"
      using nl len by (rule Suc.IH)
    finally show ?thesis
      using True by (simp add: c trimStart_strip_left trimEnd_strip_right)
  qed
qed

lemma smart_word_chunks:
  assumes "s \<noteq> []" and "NL \<notin> set s" and "0 < min_fill maxLen"
  shows "chunkDiscordMessage_smart s maxLen = Some (word_chunks maxLen s)"
  using pushSmart_word [OF assms(3) assms(2), of "length s" "[]"] assms(1,2)
  by (simp add: smart_single_para word_chunks_def)

lemma smart_one_space:
  "chunkDiscordMessage_smart one_space_text 1900
     = Some [replicate 1500 (CHR ''a''), replicate 1900 (CHR ''b''), replicate 1599 (CHR ''b'')]"
  unfolding one_space_text_def by (rule smart_word_cut)

lemma smart_letters:
  "chunkDiscordMessage_smart letters_text 1900
     = Some [replicate 1900 (CHR ''a''), replicate 1900 (CHR ''a''), replicate 1200 (CHR ''a'')]"
  unfolding letters_text_def by (rule smart_5000_a)

lemma smart_spaces: "chunkDiscordMessage_smart spaces_text 1900 = Some [[]]"
  unfolding spaces_text_def by (rule smart_5000_spaces)

lemma cut_word_1140:
  assumes "x \<noteq> SP" "set ys \<subseteq> {y}" "y \<noteq> SP" "NL \<notin> set (replicate 1140 x @ SP # ys @ zs)"
    and "760 \<le> length ys"
  shows "smart_cut 1900 (replicate 1140 x @ SP # ys @ zs) = 1140"
proof -
  have "SP \<notin> set (take (1900 - length (replicate 1140 x)) (ys @ zs))"
  proof
    assume "SP \<in> set (take (1900 - length (replicate 1140 x)) (ys @ zs))"
    then have "SP \<in> set (take 760 ys)" using assms(5) by simp
    then have "SP \<in> set ys" by (rule in_set_takeD)
    with assms(2,3) show False by auto
  qed
  then have "lastIndexOf (replicate 1140 x @ SP # ys @ zs) [SP] 1900 = int (length (replicate 1140 x))"
    by (intro lastIndexOf_single) simp_all
  then have l: "lastIndexOf (replicate 1140 x @ SP # ys @ zs) [SP] 1900 = 1140" by simp
  have n1: "lastIndexOf (replicate 1140 x @ SP # ys @ zs) [NL, NL] 1900 = - 1"
    using assms(4) by (intro lastIndexOf_absent) simp_all
  have n2: "lastIndexOf (replicate 1140 x @ SP # ys @ zs) [NL] 1900 = - 1"
    using assms(4) by (intro lastIndexOf_absent) simp_all
  show ?thesis
    unfolding smart_cut_def Let_def n1 n2 l min_fill_1900 by simp
qed


lemma push_word_1140:
  assumes cut: "smart_cut 1900 (replicate 1140 x @ SP # ys) = 1140"
    and x: "\<not> is_ws x" and ne: "ys \<noteq> []" and y: "\<not> is_ws (hd ys)"
    and len: "760 \<le> length ys"
  shows "pushSmart 1900 (replicate 1140 x @ SP # ys) chunks
           = pushSmart 1900 ys (chunks @ [replicate 1140 x])"
proof -
  let ?s = "replicate 1140 x @ SP # ys"
  have long: "1900 < length ?s" using len by simp
  have t: "take 1140 ?s = replicate 1140 x" by simp
  have d: "drop 1140 ?s = SP # ys" by simp
  have te: "trimEnd (replicate 1140 x) = replicate 1140 x"
    using x by (simp add: trimEnd_def)
  have "dropWhile is_ws ys = ys" using ne y by (cases ys) simp_all
  then have ts: "trimStart (SP # ys) = ys"
    by (simp add: trimStart_def is_ws_def)
  show ?thesis
    by (simp only: pushSmart_cut [OF long] cut t d te ts)
qed

lemma smart_four_words:
  "chunkDiscordMessage_smart four_words_text 1900
     = Some [replicate 1140 (CHR ''a''), replicate 1140 (CHR ''b''),
             replicate 1140 (CHR ''c''), replicate 1577 (CHR ''d'')]"
proof -
  let ?a = "replicate 1140 (CHR ''a'')" and ?b = "replicate 1140 (CHR ''b'')"
  let ?c = "replicate 1140 (CHR ''c'')" and ?d = "replicate 1577 (CHR ''d'')"
  have c1: "smart_cut 1900 (?a @ SP # ?b @ (SP # ?c @ SP # ?d)) = 1140"
    by (rule cut_word_1140 [where y = "CHR ''b''"]) simp_all
  have c2: "smart_cut 1900 (?b @ SP # ?c @ (SP # ?d)) = 1140"
    by (rule cut_word_1140 [where y = "CHR ''c''"]) simp_all
  have c3: "smart_cut 1900 (?c @ SP # ?d @ []) = 1140"
    by (rule cut_word_1140 [where y = "CHR ''d''"]) simp_all
  have "pushSmart 1900 (?a @ SP # ?b @ (SP # ?c @ SP # ?d)) []
          = pushSmart 1900 (?b @ (SP # ?c @ SP # ?d)) ([] @ [?a])"
    using c1 by (rule push_word_1140) (simp_all add: is_ws_def)
  also have "\<dots> = pushSmart 1900 (?c @ (SP # ?d)) (([] @ [?a]) @ [?b])"
    using c2 by (rule push_word_1140) (simp_all add: is_ws_def)
  also have "\<dots> = pushSmart 1900 ?d ((([] @ [?a]) @ [?b]) @ [?c])"
    using c3 [simplified] by (rule push_word_1140) (simp_all add: is_ws_def)
  also have "\<dots> = Some [?a, ?b, ?c, ?d]"
    by (simp add: pushSmart_end)
  finally have "pushSmart 1900 four_words_text [] = Some [?a, ?b, ?c, ?d]"
    by (simp add: four_words_text_def)
  then show ?thesis
    by (simp add: smart_single_para four_words_text_def)
qed

text \<open>
  C5, as the code has it. With \<open>maxLen = 1900\<close>, for every text of 5000 characters
  without a newline, the chunker of src/unnamed/part_001 returns the segments of the
  specification's word-boundary splitting: each cut is made at the last space whose
  index in the text still to be cut is between 1140 and 1900 (a word-boundary cut
  rather than a split inside a word), and at 1900 only when there is no such space;
  the white space at the cut is in neither segment, so no segment but the last ends in
  a white-space character. There are between one and four segments, none longer than
  1900 characters. The chunker of src/llm/ollama.js returns exactly the three segments
  of 1900, 1900 and 1200 characters that hard cuts give.
\<close>

theorem chunk_boundary_5000:
  assumes "length txt = 5000" and "NL \<notin> set txt"
  shows "chunkDiscordMessage_smart txt 1900 = Some (word_chunks 1900 txt)
         \<and> 1 \<le> length (word_chunks 1900 txt) \<and> length (word_chunks 1900 txt) \<le> 4
         \<and> list_all (\<lambda>c. length c \<le> 1900) (word_chunks 1900 txt)
         \<and> list_all trimmed_end (butlast (word_chunks 1900 txt))
         \<and> chunkDiscordMessage txt 1900
             = Some [take 1900 txt, take 1900 (drop 1900 txt), drop 3800 txt]"
proof -
  from assms(1) have ne: "txt \<noteq> []" by auto
  have m: "0 < min_fill 1900" by (simp add: min_fill_1900)
  have w: "chunkDiscordMessage_smart txt 1900 = Some (word_chunks 1900 txt)"
    using ne assms(2) m by (rule smart_word_chunks)
  from pushSmart_props [OF m, of "txt" "[]"] obtain out where
    run: "pushSmart 1900 txt [] = Some out" and post: "smart_post 1900 txt out"
    by auto
  from run w ne assms(2) have out: "out = word_chunks 1900 txt"
    by (simp add: smart_single_para)
  from post assms(1) have "out \<noteq> []" by (simp add: smart_post_def)
  then have "1 \<le> length out" by (cases out) simp_all
  moreover from assms(1) have "length txt \<le> 1900 + 3 * min_fill 1900"
    by (simp add: min_fill_1900)
  with post have "length out \<le> 4" unfolding smart_post_def by fastforce
  moreover from post have "list_all (\<lambda>c. length c \<le> 1900) out"
    and "list_all trimmed_end (butlast out)"
    by (simp_all add: smart_post_def)
  ultimately show ?thesis using w chunk_5000 [OF assms(1)] unfolding out by blast
qed

theorem chunk_boundary_5000_witness:
  "length one_space_text = 5000 \<and> NL \<notin> set one_space_text
   \<and> word_chunks 1900 one_space_text
       = [replicate 1500 (CHR ''a''), replicate 1900 (CHR ''b''), replicate 1599 (CHR ''b'')]
   \<and> chunkDiscordMessage_smart one_space_text 1900
       = Some [replicate 1500 (CHR ''a''), replicate 1900 (CHR ''b''), replicate 1599 (CHR ''b'')]
   \<and> chunkDiscordMessage one_space_text 1900
       = Some [replicate 1500 (CHR ''a'') @ SP # replicate 399 (CHR ''b''),
               replicate 1900 (CHR ''b''), replicate 1200 (CHR ''b'')]
   \<and> length four_words_text = 5000 \<and> NL \<notin> set four_words_text
   \<and> word_chunks 1900 four_words_text
       = [replicate 1140 (CHR ''a''), replicate 1140 (CHR ''b''),
          replicate 1140 (CHR ''c''), replicate 1577 (CHR ''d'')]"
proof -
  have h1: "length one_space_text = 5000" by (simp add: one_space_text_def)
  have h2: "NL \<notin> set one_space_text" by (simp add: one_space_text_def)
  note T = chunk_boundary_5000 [OF h1 h2]
  from T have "chunkDiscordMessage_smart one_space_text 1900
                 = Some (word_chunks 1900 one_space_text)"
    by (elim conjE)
  then have w: "word_chunks 1900 one_space_text
       = [replicate 1500 (CHR ''a''), replicate 1900 (CHR ''b''), replicate 1599 (CHR ''b'')]"
    by (simp add: smart_one_space)
  from T have "chunkDiscordMessage one_space_text 1900
                 = Some [take 1900 one_space_text, take 1900 (drop 1900 one_space_text),
                         drop 3800 one_space_text]"
    by (elim conjE)
  then have d: "chunkDiscordMessage one_space_text 1900
                 = Some [replicate 1500 (CHR ''a'') @ SP # replicate 399 (CHR ''b''),
                         replicate 1900 (CHR ''b''), replicate 1200 (CHR ''b'')]"
    by (simp add: one_space_text_def take_Cons' drop_Cons')
  have g1: "length four_words_text = 5000" by (simp add: four_words_text_def)
  have g2: "NL \<notin> set four_words_text" by (simp add: four_words_text_def)
  note T4 = chunk_boundary_5000 [OF g1 g2]
  from T4 have "chunkDiscordMessage_smart four_words_text 1900
                 = Some (word_chunks 1900 four_words_text)"
    by (elim conjE)
  then have w4: "word_chunks 1900 four_words_text
       = [replicate 1140 (CHR ''a''), replicate 1140 (CHR ''b''),
          replicate 1140 (CHR ''c''), replicate 1577 (CHR ''d'')]"
    by (simp add: smart_four_words)
  show ?thesis by (intro conjI h1 h2 w smart_one_space d g1 g2 w4)
qed

text \<open>
  The claim as stated fails on each of four texts of 5000 characters without newlines.
  With one space, at index 1500, the first cut is at that word boundary and the first
  segment ends in the letter before the space, not in the space. Four words of letters
  give four segments, and 5000 spaces give a single, empty segment. Letters only leave
  no word boundary: the cuts fall inside the word, in both chunkers.
\<close>

theorem chunk_boundary_counterexample:
  "chunkDiscordMessage_smart one_space_text 1900
     = Some [replicate 1500 (CHR ''a''), replicate 1900 (CHR ''b''), replicate 1599 (CHR ''b'')]
   \<and> last (replicate 1500 (CHR ''a'')) \<noteq> SP
   \<and> chunkDiscordMessage_smart four_words_text 1900
     = Some [replicate 1140 (CHR ''a''), replicate 1140 (CHR ''b''),
             replicate 1140 (CHR ''c''), replicate 1577 (CHR ''d'')]
   \<and> chunkDiscordMessage_smart spaces_text 1900 = Some [[]]
   \<and> chunkDiscordMessage_smart letters_text 1900
     = Some [replicate 1900 (CHR ''a''), replicate 1900 (CHR ''a''), replicate 1200 (CHR ''a'')]
   \<and> chunkDiscordMessage letters_text 1900
     = Some [replicate 1900 (CHR ''a''), replicate 1900 (CHR ''a''), replicate 1200 (CHR ''a'')]
   \<and> last (replicate 1900 (CHR ''a'')) \<noteq> SP"
proof -
  have "chunkDiscordMessage letters_text 1900
     = Some [replicate 1900 (CHR ''a''), replicate 1900 (CHR ''a''), replicate 1200 (CHR ''a'')]"
    using chunk_5000 [of letters_text] by (simp add: letters_text_def)
  moreover have "last (replicate 1500 (CHR ''a'')) \<noteq> SP"
    and "last (replicate 1900 (CHR ''a'')) \<noteq> SP"
    by simp_all
  ultimately show ?thesis
    by (intro conjI smart_one_space smart_four_words smart_spaces smart_letters)
qed

text \<open>
  C6, as the code has it. On the empty text the chunker of src/unnamed/part_001
  returns the single empty segment, and the chunker of src/llm/ollama.js, the one
  src/index.js imports, returns no segment at all; in both cases the callers post
  exactly one message, the placeholder.
\<close>

theorem chunk_empty:
  "chunkDiscordMessage_smart [] maxLen = Some [[]] \<and> chunkDiscordMessage [] maxLen = Some []
   \<and> posted [[]] = [''(empty response)''] \<and> posted [] = [''(empty response)'']"
  by (simp add: chunkDiscordMessage_smart_def chunkDiscordMessage_def chunk_loop_end posted_def)

text \<open>The chunker of src/llm/ollama.js does not return the single empty segment.\<close>

theorem chunk_empty_counterexample:
  "chunkDiscordMessage [] 1900 \<noteq> Some [[]]"
  by (simp add: chunkDiscordMessage_def chunk_loop_end)

section \<open>Properties of the reminders store and the scheduler\<close>

lemma rid_mark [simp]: "rid (mark I r) = rid r"
  by (simp add: mark_def)

lemma mark_mark: "mark I (mark J r) = mark (I \<union> J) r"
  by (simp add: mark_def)

lemma markDelivered_mark: "markDelivered db i = db\<lparr>rows := map (mark {i}) (rows db)\<rparr>"
  by (simp add: markDelivered_def mark_def)

lemma fold_mark:
  "fold (\<lambda>r d. if deliver r then markDelivered d (rid r) else d) due db
     = db\<lparr>rows := map (mark (rid ` {r \<in> set due. deliver r})) (rows db)\<rparr>"
proof (induction due arbitrary: db)
  case Nil
  have "mark {} = (\<lambda>r. r)" by (simp add: mark_def fun_eq_iff)
  then have "map (mark {}) (rows db) = rows db" by simp
  then show ?case by simp
next
  case (Cons a due)
  show ?case
  proof (cases "deliver a")
    case True
    then have "rid ` {r \<in> set (a # due). deliver r}
                 = rid ` {r \<in> set due. deliver r} \<union> {rid a}" by auto
    with True show ?thesis
      by (simp add: Cons.IH markDelivered_mark mark_mark comp_def)
  next
    case False
    then have "{r \<in> set (a # due). deliver r} = {r \<in> set due. deliver r}" by auto
    with False show ?thesis by (simp add: Cons.IH)
  qed
qed

lemma tick_rows:
  "snd (tick deliver db nowISO)
     = db\<lparr>rows := map (mark (rid ` {r \<in> set (rows db). is_due nowISO r \<and> deliver r})) (rows db)\<rparr>"
proof -
  have "{r \<in> set (dueReminders db nowISO). deliver r}
          = {r \<in> set (rows db). is_due nowISO r \<and> deliver r}"
    by (auto simp: dueReminders_def)
  then show ?thesis by (simp add: tick_def Let_def fold_mark)
qed

lemma wf_init: "wf_store init_store"
  by (simp add: wf_store_def init_store_def)

lemma wf_insert: "wf_store db \<Longrightarrow> wf_store (insertReminder db uid cid gid t ra cr)"
  by (auto simp: wf_store_def insertReminder_def list_all_iff less_Suc_eq)

lemma wf_remind: "wf_store db \<Longrightarrow> wf_store (snd (remind toISO db uid cid gid t dt now cr))"
  by (simp add: remind_def wf_insert split: option.splits)

lemma wf_tick: "wf_store db \<Longrightarrow> wf_store (snd (tick deliver db nowISO))"
  by (simp add: tick_rows wf_store_def comp_def list_all_iff)

lemma wf_step: "step db db' \<Longrightarrow> wf_store db \<Longrightarrow> wf_store db'"
  by (induction rule: step.induct) (simp_all add: wf_remind wf_tick)

lemma wf_steps: "step\<^sup>*\<^sup>* db db' \<Longrightarrow> wf_store db \<Longrightarrow> wf_store db'"
  by (induction rule: rtranclp_induct) (simp_all add: wf_step)

lemma reachable_wf: "reachable db \<Longrightarrow> wf_store db"
  unfolding reachable_def using wf_steps wf_init by blast

lemma tick_rows_distinct:
  assumes "distinct (map rid (rows db))"
  shows "rows (snd (tick deliver db nowISO))
           = map (\<lambda>r. if is_due nowISO r \<and> deliver r then r\<lparr>delivered := True\<rparr> else r) (rows db)"
proof -
  have "mark (rid ` {r \<in> set (rows db). is_due nowISO r \<and> deliver r}) x
          = (if is_due nowISO x \<and> deliver x then x\<lparr>delivered := True\<rparr> else x)"
    if x: "x \<in> set (rows db)" for x
  proof -
    have "rid x \<in> rid ` {r \<in> set (rows db). is_due nowISO r \<and> deliver r}
            \<longleftrightarrow> is_due nowISO x \<and> deliver x"
    proof
      assume "rid x \<in> rid ` {r \<in> set (rows db). is_due nowISO r \<and> deliver r}"
      then obtain r where r: "r \<in> set (rows db)" "is_due nowISO r" "deliver r" "rid r = rid x"
        by auto
      from assms have "inj_on rid (set (rows db))" by (simp add: distinct_map)
      with r(1,4) x have "r = x" by (auto dest: inj_onD)
      with r show "is_due nowISO x \<and> deliver x" by simp
    next
      assume "is_due nowISO x \<and> deliver x"
      with x show "rid x \<in> rid ` {r \<in> set (rows db). is_due nowISO r \<and> deliver r}" by auto
    qed
    then show ?thesis by (simp add: mark_def)
  qed
  then show ?thesis by (simp add: tick_rows)
qed

lemma distinct_map_insort_key:
  "distinct (map g (insort_key f x xs)) \<longleftrightarrow> g x \<notin> g ` set xs \<and> distinct (map g xs)"
  by (induction xs) (auto simp: set_insort_key)

lemma distinct_map_sort_key:
  "distinct (map g (sort_key f xs)) \<longleftrightarrow> distinct (map g xs)"
  by (induction xs) (simp_all add: distinct_map_insort_key)

lemma set_due: "set (dueReminders db nowISO) = {r \<in> set (rows db). is_due nowISO r}"
  by (auto simp: dueReminders_def)

lemma reachable_init: "reachable init_store"
  by (simp add: reachable_def)

lemma reachable_step: "reachable db \<Longrightarrow> step db db' \<Longrightarrow> reachable db'"
  unfolding reachable_def by (rule rtranclp.rtrancl_into_rtrancl)

lemma reachable_steps: "reachable db \<Longrightarrow> step\<^sup>*\<^sup>* db db' \<Longrightarrow> reachable db'"
  unfolding reachable_def by (rule rtranclp_trans)

lemma reachable_remind:
  "reachable db \<Longrightarrow> reachable (snd (remind toISO db uid cid gid t dt now created))"
  by (rule reachable_step [OF _ step_remind])

lemma reachable_tick: "reachable db \<Longrightarrow> reachable (snd (tick deliver db nowISO))"
  by (rule reachable_step [OF _ step_tick])

lemma sample_db_reachable: "reachable sample_db"
  unfolding sample_db_def by (intro reachable_remind reachable_init)

lemma sample_db_rows:
  "sample_db =
     \<lparr>rows =
        [\<lparr>rid = 1, user_id = ''u1'', channel_id = ''c1'', guild_id = None, rtext = ''tea'',
          run_at_iso = ''2025-01-01T09:00:00.000Z'', delivered = False,
          created_at_iso = ''2025-01-01T00:00:00.000Z''\<rparr>,
         \<lparr>rid = 2, user_id = ''u2'', channel_id = ''c2'', guild_id = Some ''g'', rtext = ''call'',
          run_at_iso = ''2025-01-01T08:00:00.000Z'', delivered = False,
          created_at_iso = ''2025-01-01T00:00:01.000Z''\<rparr>,
         \<lparr>rid = 3, user_id = ''u1'', channel_id = ''c1'', guild_id = None, rtext = ''later'',
          run_at_iso = ''2025-06-01T00:00:00.000Z'', delivered = False,
          created_at_iso = ''2025-01-01T00:00:02.000Z''\<rparr>],
      next_id = 4\<rparr>"
  by (simp add: sample_db_def remind_def insertReminder_def init_store_def sample_iso_def)

lemma sample_tick:
  "tick (\<lambda>r. rid r = 2) sample_db ''2025-01-01T10:00:00.000Z'' =
     ([\<lparr>rid = 2, user_id = ''u2'', channel_id = ''c2'', guild_id = Some ''g'', rtext = ''call'',
          run_at_iso = ''2025-01-01T08:00:00.000Z'', delivered = False,
          created_at_iso = ''2025-01-01T00:00:01.000Z''\<rparr>,
       \<lparr>rid = 1, user_id = ''u1'', channel_id = ''c1'', guild_id = None, rtext = ''tea'',
          run_at_iso = ''2025-01-01T09:00:00.000Z'', delivered = False,
          created_at_iso = ''2025-01-01T00:00:00.000Z''\<rparr>],
      \<lparr>rows =
        [\<lparr>rid = 1, user_id = ''u1'', channel_id = ''c1'', guild_id = None, rtext = ''tea'',
          run_at_iso = ''2025-01-01T09:00:00.000Z'', delivered = False,
          created_at_iso = ''2025-01-01T00:00:00.000Z''\<rparr>,
         \<lparr>rid = 2, user_id = ''u2'', channel_id = ''c2'', guild_id = Some ''g'', rtext = ''call'',
          run_at_iso = ''2025-01-01T08:00:00.000Z'', delivered = True,
          created_at_iso = ''2025-01-01T00:00:01.000Z''\<rparr>,
         \<lparr>rid = 3, user_id = ''u1'', channel_id = ''c1'', guild_id = None, rtext = ''later'',
          run_at_iso = ''2025-06-01T00:00:00.000Z'', delivered = False,
          created_at_iso = ''2025-01-01T00:00:02.000Z''\<rparr>],
      next_id = 4\<rparr>)"
  by (simp add: sample_db_rows tick_def dueReminders_def is_due_def markDelivered_def
        less_eq_char_def less_char_def)

text \<open>
  C2. For every tick on a reachable store, with the instant \<open>nowISO\<close> as the scheduler
  passes it to the query: the rows the tick attempts to deliver are exactly the rows
  with \<open>delivered = false\<close> and \<open>run_at_iso \<le> nowISO\<close>, each once, in ascending order
  of \<open>run_at_iso\<close>; afterwards a row is marked delivered exactly when it was due and
  its delivery succeeded, and every other row (failed, not yet due, already delivered)
  is as it was; a row whose delivery failed is due again at every later tick.
\<close>

theorem tick_delivers_due:
  assumes "reachable db"
  shows "set (fst (tick deliver db nowISO))
           = {r \<in> set (rows db). \<not> delivered r \<and> run_at_iso r \<le> nowISO}
         \<and> distinct (map rid (fst (tick deliver db nowISO)))
         \<and> sorted (map run_at_iso (fst (tick deliver db nowISO)))
         \<and> rows (snd (tick deliver db nowISO))
             = map (\<lambda>r. if \<not> delivered r \<and> run_at_iso r \<le> nowISO \<and> deliver r
                         then r\<lparr>delivered := True\<rparr> else r) (rows db)
         \<and> next_id (snd (tick deliver db nowISO)) = next_id db
         \<and> (\<forall>r \<in> set (fst (tick deliver db nowISO)). \<not> deliver r \<longrightarrow>
               (\<forall>later. nowISO \<le> later \<longrightarrow>
                  r \<in> set (dueReminders (snd (tick deliver db nowISO)) later)))"
proof -
  from assms have d: "distinct (map rid (rows db))"
    using reachable_wf by (simp add: wf_store_def)
  have att: "fst (tick deliver db nowISO) = dueReminders db nowISO"
    by (simp add: tick_def Let_def)
  have 1: "set (fst (tick deliver db nowISO))
             = {r \<in> set (rows db). \<not> delivered r \<and> run_at_iso r \<le> nowISO}"
    by (simp add: att set_due is_due_def)
  have 2: "distinct (map rid (fst (tick deliver db nowISO)))"
    using d by (simp add: att dueReminders_def distinct_map_sort_key distinct_map_filter)
  have 3: "sorted (map run_at_iso (fst (tick deliver db nowISO)))"
    by (simp add: att dueReminders_def)
  have 4: "rows (snd (tick deliver db nowISO))
             = map (\<lambda>r. if \<not> delivered r \<and> run_at_iso r \<le> nowISO \<and> deliver r
                         then r\<lparr>delivered := True\<rparr> else r) (rows db)"
    using tick_rows_distinct [OF d, of deliver nowISO] by (simp add: is_due_def)
  have 5: "next_id (snd (tick deliver db nowISO)) = next_id db"
    by (simp add: tick_rows)
  have 6: "r \<in> set (dueReminders (snd (tick deliver db nowISO)) later)"
    if r: "r \<in> set (fst (tick deliver db nowISO))" and f: "\<not> deliver r"
      and l: "nowISO \<le> later" for r later
  proof -
    from r 1 have in_rows: "r \<in> set (rows db)" and due: "\<not> delivered r" "run_at_iso r \<le> nowISO"
      by auto
    from in_rows f have "r \<in> set (rows (snd (tick deliver db nowISO)))"
      unfolding 4 by (force simp: image_iff)
    moreover from due l have "is_due later r" by (auto simp: is_due_def)
    ultimately show ?thesis by (simp add: set_due)
  qed
  from 1 2 3 4 5 6 show ?thesis by blast
qed

theorem tick_delivers_due_witness:
  "reachable sample_db
   \<and> map rid (fst (tick (\<lambda>r. rid r = 2) sample_db ''2025-01-01T10:00:00.000Z'')) = [2, 1]
   \<and> map delivered (rows (snd (tick (\<lambda>r. rid r = 2) sample_db ''2025-01-01T10:00:00.000Z'')))
       = [False, True, False]
   \<and> sorted (map run_at_iso (fst (tick (\<lambda>r. rid r = 2) sample_db ''2025-01-01T10:00:00.000Z'')))"
proof -
  let ?t = "tick (\<lambda>r. rid r = 2) sample_db ''2025-01-01T10:00:00.000Z''"
  note T = tick_delivers_due [OF sample_db_reachable, of "\<lambda>r. rid r = 2"
      "''2025-01-01T10:00:00.000Z''"]
  have a: "map rid (fst ?t) = [2, 1]"
    by (simp add: sample_tick)
  from T have "rows (snd ?t)
      = map (\<lambda>r. if \<not> delivered r \<and> run_at_iso r \<le> ''2025-01-01T10:00:00.000Z'' \<and> rid r = 2
                  then r\<lparr>delivered := True\<rparr> else r) (rows sample_db)"
    by (elim conjE)
  then have b: "map delivered (rows (snd ?t)) = [False, True, False]"
    by (simp add: sample_db_rows less_eq_char_def less_char_def)
  from T have c: "sorted (map run_at_iso (fst ?t))"
    by (elim conjE)
  from sample_db_reachable a b c show ?thesis by blast
qed

text \<open>
  C8. A reminder whose delivery succeeded during a tick is not among the rows that a
  following tick attempts, whatever its deliveries do, at the same instant or any
  other: the due query no longer returns its key.
\<close>

theorem tick_idempotent:
  assumes "r \<in> set (fst (tick deliver db nowISO))" and "deliver r"
  shows "rid r \<notin> rid ` set (fst (tick deliver2 (snd (tick deliver db nowISO)) later))"
proof
  let ?I = "rid ` {r \<in> set (rows db). is_due nowISO r \<and> deliver r}"
  let ?db' = "snd (tick deliver db nowISO)"
  assume "rid r \<in> rid ` set (fst (tick deliver2 ?db' later))"
  then obtain x' where x': "x' \<in> set (dueReminders ?db' later)" "rid x' = rid r"
    by (auto simp: tick_def Let_def)
  from assms have "rid r \<in> ?I" by (auto simp: tick_def Let_def set_due)
  from x'(1) have "x' \<in> set (rows ?db')" and nd: "\<not> delivered x'"
    by (auto simp: set_due is_due_def)
  then obtain x where x: "x' = mark ?I x" by (auto simp: tick_rows)
  with x'(2) have "rid x = rid r" by simp
  with \<open>rid r \<in> ?I\<close> have "rid x \<in> ?I" by simp
  with x have "delivered x'" by (simp add: mark_def)
  with nd show False by simp
qed

theorem tick_idempotent_witness:
  "rid (hd (fst (tick (\<lambda>r. rid r = 2) sample_db ''2025-01-01T10:00:00.000Z''))) = 2
   \<and> hd (fst (tick (\<lambda>r. rid r = 2) sample_db ''2025-01-01T10:00:00.000Z''))
       \<in> set (fst (tick (\<lambda>r. rid r = 2) sample_db ''2025-01-01T10:00:00.000Z''))
   \<and> 2 \<notin> rid ` set (fst (tick (\<lambda>r. True)
            (snd (tick (\<lambda>r. rid r = 2) sample_db ''2025-01-01T10:00:00.000Z''))
            ''2025-01-01T10:00:00.000Z''))"
proof -
  let ?t = "tick (\<lambda>r. rid r = 2) sample_db ''2025-01-01T10:00:00.000Z''"
  have m: "hd (fst ?t) \<in> set (fst ?t)" by (simp add: sample_tick)
  have s: "rid (hd (fst ?t)) = 2" by (simp add: sample_tick)
  from tick_idempotent [of "hd (fst ?t)" "\<lambda>r. rid r = 2" sample_db "''2025-01-01T10:00:00.000Z''",
      OF m s, of "\<lambda>r. True" "''2025-01-01T10:00:00.000Z''"] m s
  show ?thesis by simp
qed

lemma keeps_refl: "keeps db db"
  by (simp add: keeps_def)

lemma keeps_trans:
  assumes "keeps a b" "keeps b c"
  shows "keeps a c"
  unfolding keeps_def
proof (intro conjI allI impI)
  show "length (rows a) \<le> length (rows c)"
    using assms by (simp add: keeps_def)
next
  fix i assume i: "i < length (rows a)"
  with assms(1) have ib: "i < length (rows b)" by (simp add: keeps_def)
  from assms(1) i have ab: "rows b ! i = (rows a ! i)\<lparr>delivered := delivered (rows b ! i)\<rparr>"
    by (simp add: keeps_def)
  from assms(2) ib have bc: "rows c ! i = (rows b ! i)\<lparr>delivered := delivered (rows c ! i)\<rparr>"
    by (simp add: keeps_def)
  have "rows c ! i = ((rows a ! i)\<lparr>delivered := delivered (rows b ! i)\<rparr>)\<lparr>delivered := delivered (rows c ! i)\<rparr>"
    using ab bc by simp
  then show "rows c ! i = (rows a ! i)\<lparr>delivered := delivered (rows c ! i)\<rparr>"
    by simp
  assume "delivered (rows a ! i)"
  with assms i ib show "delivered (rows c ! i)" by (simp add: keeps_def)
qed

lemma keeps_insert: "keeps db (insertReminder db uid cid gid t ra cr)"
  by (simp add: keeps_def insertReminder_def nth_append)

lemma keeps_tick: "keeps db (snd (tick deliver db nowISO))"
  by (simp add: keeps_def tick_rows mark_def)

lemma step_keeps: "step db db' \<Longrightarrow> keeps db db'"
  by (induction rule: step.induct)
     (simp_all add: keeps_tick remind_def keeps_insert keeps_refl split: option.splits)

lemma steps_keeps: "step\<^sup>*\<^sup>* db db' \<Longrightarrow> keeps db db'"
  by (induction rule: rtranclp_induct) (auto intro: keeps_refl keeps_trans step_keeps)

lemma step_new_rows:
  "step db db' \<Longrightarrow> length (rows db) \<le> i \<Longrightarrow> i < length (rows db') \<Longrightarrow> \<not> delivered (rows db' ! i)"
  by (induction rule: step.induct)
     (auto simp: remind_def insertReminder_def tick_rows nth_append split: option.splits if_splits)

text \<open>
  C7. From a reachable store, through any number of operations (\<open>remind\<close> commands,
  scheduler ticks): the store stays reachable, no row is deleted and no column but
  \<open>delivered\<close> changes, a \<open>delivered\<close> flag that is true stays true (so a flag
  changes at most once, from false to true), the rows a single operation adds start
  with \<open>delivered = false\<close>, and the keys stay distinct.
\<close>

theorem delivered_never_reverses:
  assumes "reachable db" and "step\<^sup>*\<^sup>* db db'"
  shows "reachable db'
         \<and> length (rows db) \<le> length (rows db')
         \<and> (\<forall>i<length (rows db).
               rows db' ! i = (rows db ! i)\<lparr>delivered := delivered (rows db' ! i)\<rparr>
               \<and> (delivered (rows db ! i) \<longrightarrow> delivered (rows db' ! i)))
         \<and> (step db db' \<longrightarrow>
               (\<forall>i. length (rows db) \<le> i \<longrightarrow> i < length (rows db') \<longrightarrow> \<not> delivered (rows db' ! i)))
         \<and> distinct (map rid (rows db'))"
proof -
  from assms have r: "reachable db'" by (rule reachable_steps)
  then have "distinct (map rid (rows db'))"
    using reachable_wf by (simp add: wf_store_def)
  moreover from assms(2) have "keeps db db'" by (rule steps_keeps)
  ultimately show ?thesis using r step_new_rows unfolding keeps_def by blast
qed

theorem delivered_never_reverses_witness:
  "reachable sample_db
   \<and> step\<^sup>*\<^sup>* sample_db
        (snd (tick (\<lambda>r. True) (snd (tick (\<lambda>r. rid r = 2) sample_db ''2025-01-01T10:00:00.000Z''))
                ''2025-01-01T10:00:20.000Z''))
   \<and> map delivered (rows sample_db) = [False, False, False]
   \<and> map delivered (rows (snd (tick (\<lambda>r. True)
          (snd (tick (\<lambda>r. rid r = 2) sample_db ''2025-01-01T10:00:00.000Z''))
          ''2025-01-01T10:00:20.000Z''))) = [True, True, False]
   \<and> length (rows sample_db) \<le> length (rows (snd (tick (\<lambda>r. True)
          (snd (tick (\<lambda>r. rid r = 2) sample_db ''2025-01-01T10:00:00.000Z''))
          ''2025-01-01T10:00:20.000Z'')))
   \<and> distinct (map rid (rows (snd (tick (\<lambda>r. True)
          (snd (tick (\<lambda>r. rid r = 2) sample_db ''2025-01-01T10:00:00.000Z''))
          ''2025-01-01T10:00:20.000Z''))))"
proof -
  let ?db1 = "snd (tick (\<lambda>r. rid r = 2) sample_db ''2025-01-01T10:00:00.000Z'')"
  let ?db2 = "snd (tick (\<lambda>r. True) ?db1 ''2025-01-01T10:00:20.000Z'')"
  have "step sample_db ?db1" and "step ?db1 ?db2"
    by (rule step_tick)+
  then have steps: "step\<^sup>*\<^sup>* sample_db ?db2" by simp
  note T = delivered_never_reverses [OF sample_db_reachable steps]
  from T have l: "length (rows sample_db) \<le> length (rows ?db2)"
    by (elim conjE)
  from T have d: "distinct (map rid (rows ?db2))"
    by (elim conjE)
  have e0: "map delivered (rows sample_db) = [False, False, False]"
    by (simp add: sample_db_rows)
  have e2: "map delivered (rows ?db2) = [True, True, False]"
    unfolding sample_tick snd_conv
    by (simp add: tick_def dueReminders_def is_due_def markDelivered_def
          less_eq_char_def less_char_def)
  show ?thesis by (intro conjI sample_db_reachable steps e0 e2 l d)
qed

text \<open>
  C4, as the code has it. A request whose time parses to an instant strictly before
  the current instant is rejected with the past-time reply and the table is unchanged;
  a request whose instant is the current instant or later is saved as a new row.
\<close>

theorem remind_past_rejected:
  "(t < now \<longrightarrow> remind toISO db uid cid gid t' (Some t) now created = (PastTime, db))
   \<and> (now \<le> t \<longrightarrow>
        remind toISO db uid cid gid t' (Some t) now created
          = (ReminderSaved,
             \<lparr>rows = rows db @
                [\<lparr>rid = next_id db, user_id = uid, channel_id = cid, guild_id = gid,
                  rtext = t', run_at_iso = toISO t, delivered = False,
                  created_at_iso = created\<rparr>],
              next_id = Suc (next_id db)\<rparr>))"
  by (simp add: remind_def insertReminder_def)

theorem remind_past_rejected_witness:
  "(1735718399999::int) < 1735718400000
   \<and> remind sample_iso sample_db ''u1'' ''c1'' None ''tea'' (Some 1735718399999) 1735718400000
        ''2025-01-01T08:00:00.000Z'' = (PastTime, sample_db)
   \<and> (1735718400000::int) \<le> 1735718400000
   \<and> fst (remind sample_iso init_store ''u1'' ''c1'' None ''tea'' (Some 1735718400000) 1735718400000
        ''2025-01-01T08:00:00.000Z'') = ReminderSaved"
proof -
  note T1 = remind_past_rejected [of 1735718399999 1735718400000 sample_iso sample_db "''u1''" "''c1''" None "''tea''"
      "''2025-01-01T08:00:00.000Z''"]
  note T2 = remind_past_rejected [of 1735718400000 1735718400000 sample_iso init_store "''u1''" "''c1''" None "''tea''"
      "''2025-01-01T08:00:00.000Z''"]
  from T1 have a: "remind sample_iso sample_db ''u1'' ''c1'' None ''tea'' (Some 1735718399999) 1735718400000
        ''2025-01-01T08:00:00.000Z'' = (PastTime, sample_db)" by simp
  from T2 have b: "fst (remind sample_iso init_store ''u1'' ''c1'' None ''tea'' (Some 1735718400000) 1735718400000
        ''2025-01-01T08:00:00.000Z'') = ReminderSaved" by simp
  from a b show ?thesis by simp
qed

text \<open>
  The claim as stated fails when the parsed instant equals the current instant: it is
  not strictly after it, and the reminder is saved.
\<close>

theorem remind_past_counterexample:
  "\<not> (1735718400000::int) < 1735718400000
   \<and> remind sample_iso init_store ''u1'' ''c1'' None ''tea'' (Some 1735718400000) 1735718400000
        ''2025-01-01T08:00:00.000Z''
       = (ReminderSaved,
          \<lparr>rows = [\<lparr>rid = 1, user_id = ''u1'', channel_id = ''c1'', guild_id = None,
                    rtext = ''tea'', run_at_iso = ''2025-01-01T08:00:00.000Z'',
                    delivered = False, created_at_iso = ''2025-01-01T08:00:00.000Z''\<rparr>],
           next_id = 2\<rparr>)"
  by (simp add: remind_def insertReminder_def init_store_def sample_iso_def)

section \<open>Properties of the streaming relay\<close>

subsection \<open>The buffer loops, frame by frame\<close>

declare frames_of.simps [simp del] rest_of.simps [simp del] drain.simps [simp del]

lemma drain_frames:
  "drain h buf =
     (case run_frames h (frames_of buf) of
        (ys, Some oc) \<Rightarrow> (ys, Inl oc)
      | (ys, None) \<Rightarrow> (ys, Inr (rest_of buf)))"
proof (induction "length buf" arbitrary: buf rule: less_induct)
  case less
  show ?case
  proof (cases "index_blank buf")
    case None
    then show ?thesis
      by (simp add: drain.simps [of h buf] frames_of.simps [of buf] rest_of.simps [of buf])
  next
    case (Some sep)
    then have "sep + 2 \<le> length buf" by (rule index_blank_le)
    then have "length (drop (sep + 2) buf) < length buf" by simp
    note IH = less [OF this]
    show ?thesis
      using Some
      by (simp del: add_2_eq_Suc' add_2_eq_Suc
            add: drain.simps [of h buf] frames_of.simps [of buf] rest_of.simps [of buf] IH
            split: frame_result.splits prod.splits option.splits)
  qed
qed

lemma index_blank_append: "index_blank a = Some i \<Longrightarrow> index_blank (a @ b) = Some i"
proof (induction a arbitrary: i rule: index_blank.induct)
  case (1 x y cs)
  then show ?case by (auto split: if_splits)
qed simp_all

lemma frames_append: "frames_of (a @ b) = frames_of a @ frames_of (rest_of a @ b)"
proof (induction "length a" arbitrary: a rule: less_induct)
  case less
  show ?case
  proof (cases "index_blank a")
    case None
    then show ?thesis
      by (simp add: frames_of.simps [of a] rest_of.simps [of a])
  next
    case (Some i)
    then have le: "i + 2 \<le> length a" by (rule index_blank_le)
    then have "length (drop (i + 2) a) < length a" by simp
    note IH = less [OF this]
    from Some have ab: "index_blank (a @ b) = Some i" by (rule index_blank_append)
    show ?thesis
      using Some ab le
      by (simp del: add_2_eq_Suc' add_2_eq_Suc
            add: frames_of.simps [of a] frames_of.simps [of "a @ b"] rest_of.simps [of a] IH)
  qed
qed

lemma run_frames_append:
  "run_frames h (fs @ gs) =
     (case run_frames h fs of
        (ys, Some oc) \<Rightarrow> (ys, Some oc)
      | (ys, None) \<Rightarrow> (case run_frames h gs of (zs, r) \<Rightarrow> (ys @ zs, r)))"
  by (induction fs) (auto split: frame_result.splits prod.splits option.splits)

lemma rest_of_no_blank: "index_blank (rest_of s) = None"
proof (induction "length s" arbitrary: s rule: less_induct)
  case less
  show ?case
  proof (cases "index_blank s")
    case None
    then show ?thesis by (simp add: rest_of.simps [of s])
  next
    case (Some i)
    then have "i + 2 \<le> length s" by (rule index_blank_le)
    then have "length (drop (i + 2) s) < length s" by simp
    note IH = less [OF this]
    show ?thesis
      using Some by (simp del: add_2_eq_Suc' add_2_eq_Suc add: rest_of.simps [of s] IH)
  qed
qed

lemma read_loop_frames:
  "index_blank buf = None \<Longrightarrow>
   read_loop h buf chunks = finish (run_frames h (frames_of (buf @ concat chunks)))"
proof (induction chunks arbitrary: buf)
  case Nil
  then show ?case by (simp add: frames_of.simps [of buf] finish_def)
next
  case (Cons v vs)
  have "frames_of (buf @ concat (v # vs))
          = frames_of (buf @ v) @ frames_of (rest_of (buf @ v) @ concat vs)"
    using frames_append [of "buf @ v" "concat vs"] by simp
  then show ?case
    by (simp add: drain_frames run_frames_append Cons.IH [OF rest_of_no_blank] finish_def
          split: prod.splits option.splits)
qed

subsection \<open>The notions of the specification and those of the code\<close>

lemma scan_frames_index:
  "scan_frames cur s =
     (case index_blank s of
        None \<Rightarrow> []
      | Some i \<Rightarrow> (rev cur @ take i s) # scan_frames [] (drop (i + 2) s))"
proof (induction cur s rule: scan_frames.induct)
  case (1 cur a b s)
  show ?case
  proof (cases "a = NL \<and> b = NL")
    case True
    then show ?thesis by simp
  next
    case False
    with 1 show ?thesis by (auto split: option.splits)
  qed
qed simp_all

lemma spec_frames_eq: "spec_frames s = frames_of s"
proof (induction "length s" arbitrary: s rule: less_induct)
  case less
  show ?case
  proof (cases "index_blank s")
    case None
    then show ?thesis
      using scan_frames_index [of "[]" s] by (simp add: spec_frames_def frames_of.simps [of s])
  next
    case (Some i)
    then have "i + 2 \<le> length s" by (rule index_blank_le)
    then have "length (drop (i + 2) s) < length s" by simp
    note IH = less [OF this]
    show ?thesis
      using Some scan_frames_index [of "[]" s] IH
      by (simp del: add_2_eq_Suc' add_2_eq_Suc add: spec_frames_def frames_of.simps [of s])
  qed
qed

lemma pieces_nl_not_Nil: "pieces_nl s \<noteq> []"
  by (cases s) (simp_all split: list.splits)

lemma pieces_nl_Cons:
  "pieces_nl (c # s) =
     (if c = NL then [] # pieces_nl s else (c # hd (pieces_nl s)) # tl (pieces_nl s))"
  using pieces_nl_not_Nil [of s] by (cases "pieces_nl s") simp_all

declare pieces_nl.simps(2) [simp del]

lemma hd_pieces_nl: "hd (pieces_nl (b # cs)) = [] \<longleftrightarrow> b = NL"
  by (simp add: pieces_nl_Cons)

lemma spec_lines_Nil: "spec_lines [] = [[]]"
  by (simp add: spec_lines_def)

lemma spec_lines_NL: "spec_lines (NL # s) = [] # spec_lines s"
  using pieces_nl_not_Nil [of s]
  by (simp add: spec_lines_def pieces_nl_Cons drop_cr_def)

lemma spec_lines_CR_NL: "spec_lines (CR # NL # s) = [] # spec_lines s"
  using pieces_nl_not_Nil [of s]
  by (simp add: spec_lines_def pieces_nl_Cons drop_cr_def)

lemma spec_lines_other:
  assumes "a \<noteq> NL" and "\<not> (a = CR \<and> s \<noteq> [] \<and> hd s = NL)"
  shows "spec_lines (a # s) = cons_first a (spec_lines s)"
proof (cases "tl (pieces_nl s) = []")
  case True
  with pieces_nl_not_Nil [of s] have "pieces_nl s = [hd (pieces_nl s)]"
    by (cases "pieces_nl s") simp_all
  then have "spec_lines s = [hd (pieces_nl s)]"
    by (simp add: spec_lines_def) (metis butlast.simps(2) last.simps append_Nil list.simps(8))
  with True assms(1) show ?thesis
    by (simp add: spec_lines_def pieces_nl_Cons)
next
  case False
  then obtain p q qs where p: "pieces_nl s = p # q # qs"
    by (cases "pieces_nl s"; cases "tl (pieces_nl s)") simp_all
  have "drop_cr (a # p) = a # drop_cr p"
  proof (cases "p = []")
    case True
    with p have "s \<noteq> [] \<and> hd s = NL"
      by (cases s) (auto simp: pieces_nl_Cons split: if_splits)
    with assms(2) have "a \<noteq> CR" by simp
    with True show ?thesis by (simp add: drop_cr_def)
  next
    case False
    then show ?thesis by (simp add: drop_cr_def)
  qed
  with p assms(1) show ?thesis
    by (simp add: spec_lines_def pieces_nl_Cons)
qed

lemma split_lines_spec: "split_lines s = spec_lines s"
proof (induction s rule: split_lines.induct)
  case 1
  show ?case by (simp add: spec_lines_Nil)
next
  case (2 a)
  show ?case
  proof (cases "a = NL")
    case True
    then show ?thesis by (simp add: spec_lines_NL spec_lines_Nil)
  next
    case False
    then show ?thesis
      using spec_lines_other [of a "[]"] by (simp add: spec_lines_Nil)
  qed
next
  case (3 a b cs)
  show ?case
  proof (cases "a = NL")
    case True
    with 3 show ?thesis by (simp add: spec_lines_NL)
  next
    case False
    show ?thesis
    proof (cases "a = CR \<and> b = NL")
      case True
      with 3 show ?thesis by (simp add: spec_lines_CR_NL)
    next
      case nb: False
      with False 3 show ?thesis
        using spec_lines_other [of a "b # cs"] by auto
    qed
  qed
qed

lemma trim_strip: "trim s = strip_ws s"
  by (simp add: trim_def strip_ws_def trimStart_strip_left trimEnd_strip_right)

lemma join_nl_spec: "join_nl ds = spec_join ds"
  by (induction ds rule: join_nl.induct) (simp_all add: spec_join_def)

lemma startsWith_event: "startsWith l ''event:'' \<longleftrightarrow> take 6 l = ''event:''"
proof -
  have "length ''event:'' = 6" by simp
  then show ?thesis by (simp only: startsWith_def)
qed

lemma startsWith_data: "startsWith l ''data:'' \<longleftrightarrow> take 5 l = ''data:''"
proof -
  have "length ''data:'' = 5" by simp
  then show ?thesis by (simp only: startsWith_def)
qed

lemma not_both: "startsWith l ''event:'' \<Longrightarrow> \<not> startsWith l ''data:''"
  by (cases l) (auto simp: startsWith_def)

lemma strip_space_code:
  "(if startsWith p [SP] then drop 1 p else p) = strip_space p"
  by (cases p) (simp_all add: startsWith_def strip_space_def)

lemma fold_parse_line:
  "fold parse_line ls (ev, ds) =
     ((case filter (\<lambda>l. startsWith l ''event:'') ls of
         [] \<Rightarrow> ev
       | e # es \<Rightarrow> trim (drop 6 (last (e # es)))),
      ds @ map (\<lambda>l. strip_space (drop 5 l)) (filter (\<lambda>l. startsWith l ''data:'') ls))"
proof (induction ls arbitrary: ev ds)
  case Nil
  show ?case by simp
next
  case (Cons l ls)
  show ?case
  proof (cases "startsWith l ''event:''")
    case True
    then have nd: "\<not> startsWith l ''data:''" by (rule not_both)
    from True have step: "parse_line l (ev, ds) = (trim (drop 6 l), ds)"
      by (simp add: parse_line_def)
    show ?thesis
      using True nd by (simp add: step Cons.IH split: list.splits)
  next
    case False
    show ?thesis
    proof (cases "startsWith l ''data:''")
      case True
      with False have step: "parse_line l (ev, ds) = (ev, ds @ [strip_space (drop 5 l)])"
        using strip_space_code [of "drop 5 l"] by (simp add: parse_line_def Let_def)
      show ?thesis
        using False True by (simp add: step Cons.IH)
    next
      case nd: False
      with False have step: "parse_line l (ev, ds) = (ev, ds)"
        by (simp add: parse_line_def)
      show ?thesis
        using False nd by (simp add: step Cons.IH)
    qed
  qed
qed

lemma parse_frame_spec:
  "parse_frame frame =
     (spec_kind frame,
      map (\<lambda>l. strip_space (drop 5 l)) (filter (\<lambda>l. take 5 l = ''data:'') (spec_lines frame)))"
  unfolding parse_frame_def fold_parse_line spec_kind_def split_lines_spec trim_strip
    startsWith_event startsWith_data
  by simp

lemma on_frame_spec:
  "spec_kind frame \<noteq> ''error'' \<Longrightarrow>
   on_frame frame =
     (if spec_kind frame = ''done'' then Leave [] Returned
      else Continue (if spec_payload frame \<noteq> [] then [spec_payload frame] else []))"
  by (simp add: on_frame_def parse_frame_spec spec_payload_def join_nl_spec Let_def)

lemma run_frames_spec:
  "\<forall>f\<in>set (takeWhile (\<lambda>f. spec_kind f \<noteq> ''done'') fs). spec_kind f \<noteq> ''error'' \<Longrightarrow>
   finish (run_frames on_frame fs) = spec_emit fs"
proof (induction fs)
  case Nil
  show ?case by (simp add: finish_def)
next
  case (Cons f fs)
  show ?case
  proof (cases "spec_kind f = ''done''")
    case True
    then show ?thesis by (simp add: on_frame_spec finish_def)
  next
    case False
    with Cons.prems have ne: "spec_kind f \<noteq> ''error''"
      and tl: "\<forall>f\<in>set (takeWhile (\<lambda>f. spec_kind f \<noteq> ''done'') fs). spec_kind f \<noteq> ''error''"
      by simp_all
    from Cons.IH [OF tl] False ne show ?thesis
      by (auto simp: on_frame_spec finish_def split: prod.splits option.splits)
  qed
qed

lemma on_frame_throwing_spec:
  "spec_kind frame \<noteq> ''error'' \<Longrightarrow>
   on_frame_throwing frame =
     (if spec_kind frame = ''done'' then Leave [] Returned
      else Continue (if spec_payload frame \<noteq> [] then [spec_payload frame] else []))"
  by (simp add: on_frame_throwing_def parse_frame_spec spec_payload_def join_nl_spec Let_def)

lemma run_frames_throwing_spec:
  "\<forall>f\<in>set (takeWhile (\<lambda>f. spec_kind f \<noteq> ''done'') fs). spec_kind f \<noteq> ''error'' \<Longrightarrow>
   finish (run_frames on_frame_throwing fs) = spec_emit fs"
proof (induction fs)
  case Nil
  show ?case by (simp add: finish_def)
next
  case (Cons f fs)
  show ?case
  proof (cases "spec_kind f = ''done''")
    case True
    then show ?thesis by (simp add: on_frame_throwing_spec finish_def)
  next
    case False
    with Cons.prems have ne: "spec_kind f \<noteq> ''error''"
      and tl: "\<forall>f\<in>set (takeWhile (\<lambda>f. spec_kind f \<noteq> ''done'') fs). spec_kind f \<noteq> ''error''"
      by simp_all
    from Cons.IH [OF tl] False ne show ?thesis
      by (auto simp: on_frame_throwing_spec finish_def split: prod.splits option.splits)
  qed
qed

subsection \<open>The relay against the specification\<close>

lemma example_frames:
  "spec_frames example_stream
     = [''event: message'' @ [NL] @ ''data: hello'', ''data:  world'', ''event: done'']"
  by (simp add: example_stream_def spec_frames_def)

lemma example_kinds:
  "map spec_kind (spec_frames example_stream) = [''message'', ''message'', ''done'']"
  unfolding example_frames
  by (simp add: spec_kind_def spec_lines_def pieces_nl.simps(2) drop_cr_def strip_ws_def
        strip_left_def strip_right_def is_ws_def)

lemma example_payloads:
  "map spec_payload (spec_frames example_stream) = [''hello'', '' world'', []]"
  unfolding example_frames
  by (simp add: spec_payload_def spec_lines_def pieces_nl.simps(2) drop_cr_def spec_join_def
        strip_space_def)

lemma multiline_frames:
  "spec_frames multiline_stream = [''data: a'' @ [CR, NL] @ '': note'' @ [NL] @ ''data:  b'']"
  by (simp add: multiline_stream_def spec_frames_def)

lemma multiline_kinds: "map spec_kind (spec_frames multiline_stream) = [''message'']"
  unfolding multiline_frames
  by (simp add: spec_kind_def spec_lines_def pieces_nl.simps(2) drop_cr_def)

lemma multiline_payloads:
  "map spec_payload (spec_frames multiline_stream) = [''a'' @ NL # '' b'']"
  unfolding multiline_frames
  by (simp add: spec_payload_def spec_lines_def pieces_nl.simps(2) drop_cr_def spec_join_def
        strip_space_def)

lemma on_frame_all:
  "on_frame frame =
     (if spec_kind frame = ''done'' then Leave [] Returned
      else Continue ((if spec_kind frame = ''error'' then [fallback] else []) @
                     (if spec_payload frame \<noteq> [] then [spec_payload frame] else [])))"
  by (simp add: on_frame_def parse_frame_spec spec_payload_def join_nl_spec Let_def)

lemma relay_run:
  "lunaChatStream chunks = finish (run_frames on_frame (spec_frames (concat chunks)))"
  using read_loop_frames [of "[]" on_frame chunks]
  by (simp add: lunaChatStream_def spec_frames_eq)

text \<open>
  C3. For every stream, however it is cut into chunks, the relay of
  src/llm/lunacore.js handles the frames of the whole stream (delimited by blank
  lines) one after the other; a frame's kind is \<open>message\<close> unless an event line says
  otherwise, its payload is that of its data lines, joined with newlines after one
  optional leading space is stripped from each; a \<open>done\<close> frame ends the sequence
  and its payload is discarded, and any other frame yields its payload as one
  fragment when it is not empty (after the fallback message when the kind is
  \<open>error\<close>). So when no frame before the first \<open>done\<close> frame is of kind \<open>error\<close>, the
  relay yields what the specification's framing gives, in src/llm/lunacore.js and in
  src/unnamed/part_000 alike. In particular the stream of the specification's example
  yields the fragments \<open>hello\<close> and \<open> world\<close> (with its leading space), in this order,
  and then the generator returns; and a frame with the data lines \<open>a\<close> and \<open> b\<close>
  yields the one fragment made of \<open>a\<close>, a newline and \<open> b\<close>.
\<close>

theorem relay_framing:
  "lunaChatStream chunks = finish (run_frames on_frame (spec_frames (concat chunks)))
   \<and> on_frame frame =
        (if spec_kind frame = ''done'' then Leave [] Returned
         else Continue ((if spec_kind frame = ''error'' then [fallback] else []) @
                        (if spec_payload frame \<noteq> [] then [spec_payload frame] else [])))
   \<and> ((\<forall>f\<in>set (takeWhile (\<lambda>f. spec_kind f \<noteq> ''done'') (spec_frames (concat chunks))).
        spec_kind f \<noteq> ''error'')
      \<longrightarrow> lunaChatStream chunks = spec_relay (concat chunks)
          \<and> lunaChatStream_throwing chunks = spec_relay (concat chunks))
   \<and> (concat chunks = example_stream
      \<longrightarrow> lunaChatStream chunks = ([''hello'', '' world''], Returned))
   \<and> (concat chunks = multiline_stream
      \<longrightarrow> lunaChatStream chunks = ([''a'' @ NL # '' b''], StreamEnd))"
proof (intro conjI impI)
  show "lunaChatStream chunks = finish (run_frames on_frame (spec_frames (concat chunks)))"
    by (rule relay_run)
  show "on_frame frame =
        (if spec_kind frame = ''done'' then Leave [] Returned
         else Continue ((if spec_kind frame = ''error'' then [fallback] else []) @
                        (if spec_payload frame \<noteq> [] then [spec_payload frame] else [])))"
    by (rule on_frame_all)
  {
    assume h: "\<forall>f\<in>set (takeWhile (\<lambda>f. spec_kind f \<noteq> ''done'') (spec_frames (concat chunks))).
          spec_kind f \<noteq> ''error''"
    then show "lunaChatStream chunks = spec_relay (concat chunks)"
      by (simp add: relay_run spec_relay_def run_frames_spec)
    from h show "lunaChatStream_throwing chunks = spec_relay (concat chunks)"
      using read_loop_frames [of "[]" on_frame_throwing chunks]
      by (simp add: lunaChatStream_throwing_def spec_relay_def spec_frames_eq
            run_frames_throwing_spec)
  }
  {
    assume ex: "concat chunks = example_stream"
    have "lunaChatStream chunks = finish (run_frames on_frame (spec_frames example_stream))"
      using relay_run [of chunks] ex by simp
    also have "\<dots> = spec_emit (spec_frames example_stream)"
      using example_kinds by (intro run_frames_spec) (simp add: example_frames)
    also have "\<dots> = ([''hello'', '' world''], Returned)"
      using example_kinds example_payloads by (simp add: example_frames)
    finally show "lunaChatStream chunks = ([''hello'', '' world''], Returned)" .
  }
  assume ml: "concat chunks = multiline_stream"
  have "lunaChatStream chunks = finish (run_frames on_frame (spec_frames multiline_stream))"
    using relay_run [of chunks] ml by simp
  also have "\<dots> = spec_emit (spec_frames multiline_stream)"
    using multiline_kinds by (intro run_frames_spec) (simp add: multiline_frames)
  also have "\<dots> = ([''a'' @ NL # '' b''], StreamEnd)"
    using multiline_kinds multiline_payloads by (simp add: multiline_frames)
  finally show "lunaChatStream chunks = ([''a'' @ NL # '' b''], StreamEnd)" .
qed

theorem relay_framing_witness:
  "concat example_chunks = example_stream
   \<and> map spec_kind (spec_frames (concat example_chunks)) = [''message'', ''message'', ''done'']
   \<and> lunaChatStream example_chunks = spec_relay (concat example_chunks)
   \<and> lunaChatStream example_chunks = ([''hello'', '' world''], Returned)
   \<and> concat multiline_chunks = multiline_stream
   \<and> spec_relay (concat multiline_chunks) = ([''a'' @ NL # '' b''], StreamEnd)
   \<and> lunaChatStream multiline_chunks = ([''a'' @ NL # '' b''], StreamEnd)"
proof -
  have c: "concat example_chunks = example_stream"
    by (simp add: example_chunks_def example_stream_def)
  have k: "map spec_kind (spec_frames (concat example_chunks)) = [''message'', ''message'', ''done'']"
    by (simp only: c example_kinds)
  have h: "\<forall>f\<in>set (takeWhile (\<lambda>f. spec_kind f \<noteq> ''done'') (spec_frames (concat example_chunks))).
        spec_kind f \<noteq> ''error''"
    using example_kinds unfolding c example_frames by simp
  note T = relay_framing [of example_chunks "[]"]
  from T h have a: "lunaChatStream example_chunks = spec_relay (concat example_chunks)"
    by blast
  from T c have b: "lunaChatStream example_chunks = ([''hello'', '' world''], Returned)"
    by blast
  have c2: "concat multiline_chunks = multiline_stream"
    by (simp add: multiline_chunks_def multiline_stream_def)
  have s2: "spec_relay (concat multiline_chunks) = ([''a'' @ NL # '' b''], StreamEnd)"
    using multiline_kinds multiline_payloads
    unfolding c2 spec_relay_def multiline_frames by simp
  note T2 = relay_framing [of multiline_chunks "[]"]
  from T2 c2 have b2: "lunaChatStream multiline_chunks = ([''a'' @ NL # '' b''], StreamEnd)"
    by blast
  show ?thesis by (intro conjI c k a b c2 s2 b2)
qed

subsection \<open>Error frames\<close>

text \<open>
  C1, on the code. After an \<open>error\<close> frame the generator of src/llm/lunacore.js yields
  the fallback message, but it does not return: it goes on to yield the frame's raw
  payload \<open>boom\<close> and to relay the frames that follow, until the stream ends. The
  generator of src/unnamed/part_000 yields nothing and throws the raw payload.
\<close>

theorem relay_error_frame:
  "lunaChatStream [error_stream] = ([fallback, ''boom''], StreamEnd)
   \<and> lunaChatStream [error_stream, ''data: more'' @ [NL, NL]]
       = ([fallback, ''boom'', ''more''], StreamEnd)
   \<and> lunaChatStream_throwing [error_stream] = ([], Thrown ''boom'')"
  by (simp add: lunaChatStream_def lunaChatStream_throwing_def error_stream_def drain.simps
        on_frame_def on_frame_throwing_def parse_frame_def parse_line_def startsWith_def
        trim_def trimStart_def trimEnd_def is_ws_def)

end
